theory Spec2Isabelle
  imports Complex_Main "HOL-Library.Log_Nat"
begin

section \<open>Configuration\<close>

text \<open>
  The module constants \<open>INITIAL_BANKROLL\<close>, \<open>MIN_BET\<close>, \<open>MAX_BET\<close> and the table
  \<open>DIFFICULTIES\<close>. Their values (100.0, 1.0, 1000.0, 1.5, 2.0, 2.5) are floats that denote
  exactly these numbers.
\<close>

datatype py_error = KeyError | RecursionError

definition INITIAL_BANKROLL :: real where
  "INITIAL_BANKROLL = 100"

definition MIN_BET :: real where
  "MIN_BET = 1"

definition MAX_BET :: real where
  "MAX_BET = 1000"

text \<open>One entry of \<open>DIFFICULTIES\<close>: the dictionary with the keys rows, cols, mines, multiplier.\<close>

record settings =
  rows :: nat
  cols :: nat
  mines :: nat
  multiplier :: real

definition DIFFICULTIES :: "string \<Rightarrow> settings option" where
  "DIFFICULTIES =
     [''easy'' \<mapsto> \<lparr>rows = 9, cols = 9, mines = 10, multiplier = 3 / 2\<rparr>,
      ''medium'' \<mapsto> \<lparr>rows = 16, cols = 16, mines = 40, multiplier = 2\<rparr>,
      ''hard'' \<mapsto> \<lparr>rows = 16, cols = 30, mines = 99, multiplier = 5 / 2\<rparr>]"

section \<open>Floating-point numbers\<close>

text \<open>
  A Python float is an IEEE 754 binary64 number. The model keeps a finite float as the real
  number it denotes: the comparisons \<open><\<close> and \<open>>\<close> are then the exact ones, and a float
  literal such as 1.3 is \<open>round64 (13 / 10)\<close>. The operators \<open>*\<close>, \<open>+\<close> and \<open>-\<close> compute
  the exact result and round it to the nearest double, ties to the even significand:

  \<^item> \<open>binade a\<close> is the exponent \<open>k\<close> with \<open>2 ^ k \<le> a < 2 ^ (k + 1)\<close> (lemma
    \<open>binade_bracket\<close>);
  \<^item> the doubles around \<open>x\<close> are the multiples of \<open>2 ^ (k - 52)\<close>, with \<open>k\<close> no less than
    - 1022 (below that the numbers are subnormal and the spacing stays 2 ^ - 1074);
  \<^item> \<open>round64 x\<close> is the nearest such multiple (lemma \<open>round64_near\<close>), and \<open>x\<close> itself
    when \<open>x\<close> is a double (lemma \<open>round64_double\<close>).

  Adding or subtracting zero returns the other operand, as it does for every float.
  The model has no infinity and no NaN: it is the code's arithmetic as long as the results
  stay within \<open>MAX_DOUBLE\<close>, which they do for a bet of at most \<open>MAX_BET\<close> (the payout is at
  most 2500, and adding it to a bankroll near \<open>MAX_DOUBLE\<close> rounds back to the bankroll).
\<close>

definition pow2 :: "int \<Rightarrow> real" where
  "pow2 e = (if 0 \<le> e then 2 ^ nat e else 1 / 2 ^ nat (- e))"

definition round_half_even :: "real \<Rightarrow> int" where
  "round_half_even y =
     (let f = \<lfloor>y\<rfloor>; d = y - of_int f
      in if d < 1 / 2 then f else if 1 / 2 < d then f + 1 else if even f then f else f + 1)"

definition binade :: "real \<Rightarrow> int" where
  "binade a = (if 1 \<le> a then bitlen \<lfloor>a\<rfloor> - 1 else - bitlen (\<lceil>1 / a\<rceil> - 1))"

definition round64 :: "real \<Rightarrow> real" where
  "round64 x =
     (let q = pow2 (max (binade \<bar>x\<bar>) (- 1022) - 52)
      in of_int (round_half_even (x / q)) * q)"

definition is_double :: "real \<Rightarrow> bool" where
  "is_double x \<longleftrightarrow>
     (\<exists>m e. \<bar>m\<bar> < 2 ^ 53 \<and> - 1074 \<le> e \<and> e \<le> 971 \<and> x = of_int m * pow2 e)"

definition MAX_DOUBLE :: real where
  "MAX_DOUBLE = (2 ^ 53 - 1) * 2 ^ 971"

definition fmul :: "real \<Rightarrow> real \<Rightarrow> real" where
  "fmul x y = round64 (x * y)"

definition fadd :: "real \<Rightarrow> real \<Rightarrow> real" where
  "fadd x y = (if x = 0 then y else if y = 0 then x else round64 (x + y))"

definition fsub :: "real \<Rightarrow> real \<Rightarrow> real" where
  "fsub x y = (if y = 0 then x else round64 (x - y))"

section \<open>GamblingSystem\<close>

record GamblingSystem =
  bankroll :: real
  current_bet :: real
  current_difficulty :: string

definition GamblingSystem_init :: GamblingSystem where
  "GamblingSystem_init =
     \<lparr>bankroll = INITIAL_BANKROLL, current_bet = 0, current_difficulty = ''easy''\<rparr>"

text \<open>
  The second component of the pair that \<open>place_bet\<close> returns. The source formats a string:
  \<open>BetOutOfBounds\<close> is "Bet must be between $1.0 and $1000.0", \<open>InsufficientFunds\<close> is
  "Insufficient funds", and \<open>BetPlaced amount difficulty\<close> is
  "Bet placed: $amount on difficulty difficulty".
\<close>

datatype bet_message = BetOutOfBounds | InsufficientFunds | BetPlaced real string

definition place_bet ::
  "GamblingSystem \<Rightarrow> real \<Rightarrow> string \<Rightarrow> (bool \<times> bet_message) \<times> GamblingSystem" where
  "place_bet self amount difficulty =
     (if amount < MIN_BET \<or> amount > MAX_BET then ((False, BetOutOfBounds), self)
      else if amount > bankroll self then ((False, InsufficientFunds), self)
      else ((True, BetPlaced amount difficulty),
            self\<lparr>current_bet := amount, current_difficulty := difficulty\<rparr>))"

text \<open>The result dictionaries of \<open>win_game\<close> and \<open>lose_game\<close>.\<close>

record result =
  outcome :: string
  new_bankroll :: real

record win_result = result +
  payout :: real
  profit :: real

record lose_result = result +
  loss :: real

text \<open>
  \<open>win_game\<close> looks the recorded difficulty up in \<open>DIFFICULTIES\<close>; an unknown name raises
  KeyError before anything is changed.
\<close>

definition win_game :: "GamblingSystem \<Rightarrow> py_error + (win_result \<times> GamblingSystem)" where
  "win_game self =
     (case DIFFICULTIES (current_difficulty self) of
        None \<Rightarrow> Inl KeyError
      | Some s \<Rightarrow>
          let payout = fmul (current_bet self) (multiplier s);
              self1 = self\<lparr>bankroll := fadd (bankroll self) payout\<rparr>;
              profit = fsub payout (current_bet self1);
              result = \<lparr>outcome = ''win'', new_bankroll = bankroll self1,
                        payout = payout, profit = profit\<rparr>
          in Inr (result, self1\<lparr>current_bet := 0\<rparr>))"

definition lose_game :: "GamblingSystem \<Rightarrow> lose_result \<times> GamblingSystem" where
  "lose_game self =
     (let loss = current_bet self;
          self1 = self\<lparr>bankroll := fsub (bankroll self) loss\<rparr>;
          result = \<lparr>outcome = ''lose'', new_bankroll = bankroll self1, loss = loss\<rparr>
      in (result, self1\<lparr>current_bet := 0\<rparr>))"

section \<open>MinesweeperGame\<close>

text \<open>
  The object's fields. The rows, cols, mines and multiplier of \<open>self.settings\<close> are the
  fields of the record this one extends. A cell of \<open>board\<close> is \<open>- 1\<close> for a mine and
  the number of adjacent mines otherwise. Coordinates that a caller passes are Python ints
  and may be negative; loop indices are natural numbers.

  The two random draws are inputs of the model: \<open>random.sample\<close> is the list
  \<open>mine_positions\<close> handed to the constructor (\<open>is_sample\<close> is what the library
  promises about it), and \<open>random.choice\<close> is the index \<open>pick\<close> handed to
  \<open>reveal_cell\<close>.

  \<open>flood_fill\<close> is recursive in the source with nothing bounding its depth but the
  interpreter's recursion limit. The model carries the number of frames still available:
  with none left the call raises RecursionError, which is the result \<open>None\<close>.
  \<open>for_each xs body\<close> is a \<open>for\<close> loop whose body may raise.

  Every index into the three matrices is guarded in the source by a bounds check against
  \<open>self.rows\<close> and \<open>self.cols\<close>, and the matrices keep the shape the constructor gave
  them (\<open>wf_game\<close> below), so no access is out of range.
\<close>

record game = settings +
  difficulty :: string
  board :: "int list list"
  revealed :: "bool list list"
  flagged :: "bool list list"
  game_over :: bool
  game_won :: bool
  first_click :: bool

definition offsets :: "(int \<times> int) list" where
  "offsets = [(dr, dc). dr \<leftarrow> [- 1, 0, 1], dc \<leftarrow> [- 1, 0, 1], \<not> (dr = 0 \<and> dc = 0)]"

definition cells :: "nat \<Rightarrow> nat \<Rightarrow> (nat \<times> nat) list" where
  "cells n m = [(r, c). r \<leftarrow> [0..<n], c \<leftarrow> [0..<m]]"

definition place_mines :: "game \<Rightarrow> (nat \<times> nat) list \<Rightarrow> game" where
  "place_mines self mine_positions =
     self\<lparr>board := fold (\<lambda>(r, c) b. b[r := (b ! r)[c := - 1]]) mine_positions (board self)\<rparr>"

definition mine_count :: "nat \<Rightarrow> nat \<Rightarrow> int list list \<Rightarrow> nat \<Rightarrow> nat \<Rightarrow> nat" where
  "mine_count n m b r c =
     length [(dr, dc) \<leftarrow> offsets.
               let nr = int r + dr; nc = int c + dc
               in 0 \<le> nr \<and> nr < int n \<and> 0 \<le> nc \<and> nc < int m \<and> b ! nat nr ! nat nc = - 1]"

definition calculate_numbers :: "game \<Rightarrow> game" where
  "calculate_numbers self =
     self\<lparr>board :=
       fold (\<lambda>(r, c) b.
               if b ! r ! c = - 1 then b
               else b[r := (b ! r)[c := int (mine_count (rows self) (cols self) b r c)]])
            (cells (rows self) (cols self)) (board self)\<rparr>"

definition fresh_game :: "settings \<Rightarrow> string \<Rightarrow> (nat \<times> nat) list \<Rightarrow> game" where
  "fresh_game s dif mine_positions =
     calculate_numbers (place_mines
       \<lparr>rows = rows s, cols = cols s, mines = mines s, multiplier = multiplier s,
        difficulty = dif,
        board = replicate (rows s) (replicate (cols s) 0),
        revealed = replicate (rows s) (replicate (cols s) False),
        flagged = replicate (rows s) (replicate (cols s) False),
        game_over = False, game_won = False, first_click = True\<rparr>
       mine_positions)"

definition MinesweeperGame_init :: "string \<Rightarrow> (nat \<times> nat) list \<Rightarrow> py_error + game" where
  "MinesweeperGame_init dif mine_positions =
     (case DIFFICULTIES dif of
        None \<Rightarrow> Inl KeyError
      | Some s \<Rightarrow> Inr (fresh_game s dif mine_positions))"

definition is_sample :: "settings \<Rightarrow> (nat \<times> nat) list \<Rightarrow> bool" where
  "is_sample s ps \<longleftrightarrow>
     length ps = mines s \<and> distinct ps \<and> (\<forall>(r, c) \<in> set ps. r < rows s \<and> c < cols s)"

definition is_valid_position :: "game \<Rightarrow> int \<Rightarrow> int \<Rightarrow> bool" where
  "is_valid_position self row col \<longleftrightarrow>
     0 \<le> row \<and> row < int (rows self) \<and> 0 \<le> col \<and> col < int (cols self)"

definition random_choice :: "nat \<Rightarrow> 'a list \<Rightarrow> 'a" where
  "random_choice pick xs = xs ! (pick mod length xs)"

text \<open>The list \<open>safe_spots\<close> that \<open>_ensure_safe_first_click\<close> builds.\<close>

definition safe_spots :: "game \<Rightarrow> int \<Rightarrow> int \<Rightarrow> (nat \<times> nat) list" where
  "safe_spots self row col =
     [(r, c). r \<leftarrow> [0..<rows self], c \<leftarrow> [0..<cols self],
              board self ! r ! c \<noteq> - 1 \<and> (int r \<noteq> row \<or> int c \<noteq> col)]"

definition ensure_safe_first_click :: "game \<Rightarrow> int \<Rightarrow> int \<Rightarrow> nat \<Rightarrow> game" where
  "ensure_safe_first_click self row col pick =
     (if board self ! nat row ! nat col = - 1 then
        if safe_spots self row col \<noteq> [] then
          let (new_r, new_c) = random_choice pick (safe_spots self row col);
              b1 = (board self)[nat row := (board self ! nat row)[nat col := 0]];
              b2 = b1[new_r := (b1 ! new_r)[new_c := - 1]]
          in calculate_numbers (self\<lparr>board := b2\<rparr>)
        else self
      else self)"

fun for_each :: "'a list \<Rightarrow> ('a \<Rightarrow> 's \<Rightarrow> 's option) \<Rightarrow> 's \<Rightarrow> 's option" where
  "for_each [] body s = Some s"
| "for_each (x # xs) body s =
     (case body x s of None \<Rightarrow> None | Some s' \<Rightarrow> for_each xs body s')"

lemma for_each_cong [fundef_cong]:
  assumes "xs = ys" and "s = t"
    and "\<And>x a. x \<in> set ys \<Longrightarrow> body x a = body' x a"
  shows "for_each xs body s = for_each ys body' t"
  using assms
proof (induction ys arbitrary: xs s t)
  case Nil
  then show ?case by simp
next
  case (Cons y ys)
  then show ?case by (auto split: option.splits)
qed

fun flood_fill :: "nat \<Rightarrow> game \<Rightarrow> int \<Rightarrow> int \<Rightarrow> game option" where
  "flood_fill 0 self row col = None"
| "flood_fill (Suc depth) self row col =
     (if \<not> is_valid_position self row col \<or> revealed self ! nat row ! nat col then Some self
      else
        let self1 = self\<lparr>revealed :=
                     (revealed self)[nat row := (revealed self ! nat row)[nat col := True]]\<rparr>
        in if board self1 ! nat row ! nat col = 0 then
             for_each offsets (\<lambda>(dr, dc) s. flood_fill depth s (row + dr) (col + dc)) self1
           else Some self1)"

definition revealed_count :: "game \<Rightarrow> nat" where
  "revealed_count self = length [(r, c) \<leftarrow> cells (rows self) (cols self). revealed self ! r ! c]"

definition check_win_condition :: "game \<Rightarrow> game" where
  "check_win_condition self =
     (let total_cells = int (rows self) * int (cols self);
          safe_cells = total_cells - int (mines self)
      in if int (revealed_count self) = safe_cells
         then self\<lparr>game_over := True, game_won := True\<rparr>
         else self)"

definition reveal_cell ::
  "nat \<Rightarrow> game \<Rightarrow> int \<Rightarrow> int \<Rightarrow> nat \<Rightarrow> py_error + (bool \<times> game)" where
  "reveal_cell limit self row col pick =
     (if game_over self \<or> \<not> is_valid_position self row col then Inr (False, self)
      else if revealed self ! nat row ! nat col \<or> flagged self ! nat row ! nat col
      then Inr (False, self)
      else
        let self1 = (if first_click self \<and> board self ! nat row ! nat col = - 1
                     then ensure_safe_first_click self row col pick else self);
            self2 = self1\<lparr>first_click := False\<rparr>
        in if board self2 ! nat row ! nat col = - 1
           then Inr (True, self2\<lparr>game_over := True, game_won := False\<rparr>)
           else (case flood_fill limit self2 row col of
                   None \<Rightarrow> Inl RecursionError
                 | Some self3 \<Rightarrow> Inr (True, check_win_condition self3)))"

definition toggle_flag :: "game \<Rightarrow> int \<Rightarrow> int \<Rightarrow> bool \<times> game" where
  "toggle_flag self row col =
     (if game_over self \<or> \<not> is_valid_position self row col then (False, self)
      else if revealed self ! nat row ! nat col then (False, self)
      else (True, self\<lparr>flagged :=
              (flagged self)[nat row := (flagged self ! nat row)[nat col :=
                 \<not> flagged self ! nat row ! nat col]]\<rparr>))"

definition is_game_over :: "game \<Rightarrow> bool" where
  "is_game_over self = game_over self"

definition is_game_won :: "game \<Rightarrow> bool" where
  "is_game_won self = game_won self"

datatype terminal_state = TNone | Won | Lost

definition terminal :: "game \<Rightarrow> terminal_state" where
  "terminal self =
     (if \<not> is_game_over self then TNone else if is_game_won self then Won else Lost)"

section \<open>Vocabulary of the properties\<close>

text \<open>
  A matrix has the shape \<open>n\<close> by \<open>m\<close>; a game is well formed when its three matrices have
  the shape that its fields \<open>rows\<close> and \<open>cols\<close> give.
\<close>

definition shaped :: "nat \<Rightarrow> nat \<Rightarrow> 'a list list \<Rightarrow> bool" where
  "shaped n m xs \<longleftrightarrow> length xs = n \<and> (\<forall>row \<in> set xs. length row = m)"

definition wf_game :: "game \<Rightarrow> bool" where
  "wf_game g \<longleftrightarrow>
     shaped (rows g) (cols g) (board g) \<and> shaped (rows g) (cols g) (revealed g)
     \<and> shaped (rows g) (cols g) (flagged g)"

text \<open>
  The mines of a board, and the boards on which every cell that is not a mine holds the number
  that \<open>mine_count\<close> computes for it. \<open>mines_around g r c\<close> is the set of the mines among
  the in-bounds neighbours of the cell, in the eight directions.
\<close>

definition mine_cells :: "nat \<Rightarrow> nat \<Rightarrow> int list list \<Rightarrow> (nat \<times> nat) set" where
  "mine_cells n m b = {(r, c). r < n \<and> c < m \<and> b ! r ! c = - 1}"

definition adj_ok :: "nat \<Rightarrow> nat \<Rightarrow> int list list \<Rightarrow> bool" where
  "adj_ok n m b \<longleftrightarrow>
     (\<forall>r < n. \<forall>c < m. b ! r ! c \<noteq> - 1 \<longrightarrow> b ! r ! c = int (mine_count n m b r c))"

definition mines_around :: "game \<Rightarrow> nat \<Rightarrow> nat \<Rightarrow> (nat \<times> nat) set" where
  "mines_around g r c =
     {(r', c'). r' < rows g \<and> c' < cols g \<and> (r', c') \<noteq> (r, c)
        \<and> \<bar>int r' - int r\<bar> \<le> 1 \<and> \<bar>int c' - int c\<bar> \<le> 1 \<and> board g ! r' ! c' = - 1}"

text \<open>The body of the two nested loops of \<open>_calculate_numbers\<close>, for one cell.\<close>

definition calc_cell :: "nat \<Rightarrow> nat \<Rightarrow> nat \<times> nat \<Rightarrow> int list list \<Rightarrow> int list list" where
  "calc_cell n m = (\<lambda>(r, c) b.
               if b ! r ! c = - 1 then b
               else b[r := (b ! r)[c := int (mine_count n m b r c)]])"

text \<open>
  \<open>mark\<close> is the assignment \<open>self.revealed[row][col] = True\<close>; \<open>hidden\<close> counts the
  cells not yet revealed; \<open>ff_rel g g'\<close> says that \<open>g'\<close> is \<open>g\<close> with more cells
  revealed and nothing else changed.
\<close>

definition mark :: "game \<Rightarrow> int \<Rightarrow> int \<Rightarrow> game" where
  "mark g row col = g\<lparr>revealed :=
                     (revealed g)[nat row := (revealed g ! nat row)[nat col := True]]\<rparr>"

definition hidden :: "game \<Rightarrow> nat" where
  "hidden g = card {(r, c). r < rows g \<and> c < cols g \<and> \<not> revealed g ! r ! c}"

definition ff_rel :: "game \<Rightarrow> game \<Rightarrow> bool" where
  "ff_rel g g' \<longleftrightarrow>
     (\<exists>R. g' = g\<lparr>revealed := R\<rparr> \<and> shaped (rows g) (cols g) R
        \<and> (\<forall>r < rows g. \<forall>c < cols g. revealed g ! r ! c \<longrightarrow> R ! r ! c))"

text \<open>
  No revealed cell is a mine; no cell is revealed; the number of revealed cells is the number
  of cells that are not mines, which is the test of \<open>_check_win_condition\<close>.
\<close>

definition no_mine_revealed :: "game \<Rightarrow> bool" where
  "no_mine_revealed g \<longleftrightarrow>
     (\<forall>r < rows g. \<forall>c < cols g. revealed g ! r ! c \<longrightarrow> board g ! r ! c \<noteq> - 1)"

definition none_revealed :: "game \<Rightarrow> bool" where
  "none_revealed g \<longleftrightarrow> (\<forall>r < rows g. \<forall>c < cols g. \<not> revealed g ! r ! c)"

definition win_reached :: "game \<Rightarrow> bool" where
  "win_reached g \<longleftrightarrow> int (revealed_count g) = int (rows g) * int (cols g) - int (mines g)"

text \<open>The state of \<open>self\<close> when \<open>reveal_cell\<close> reaches its test for a mine.\<close>

definition before_mine_test :: "game \<Rightarrow> int \<Rightarrow> int \<Rightarrow> nat \<Rightarrow> game" where
  "before_mine_test g row col pick =
     (if first_click g \<and> board g ! nat row ! nat col = - 1
      then ensure_safe_first_click g row col pick else g)\<lparr>first_click := False\<rparr>"

text \<open>What holds of every game that the constructor and the two mutators produce.\<close>

definition inv :: "game \<Rightarrow> bool" where
  "inv g \<longleftrightarrow>
     wf_game g \<and> adj_ok (rows g) (cols g) (board g) \<and> no_mine_revealed g
     \<and> (first_click g \<longrightarrow> none_revealed g)
     \<and> (game_won g \<longleftrightarrow> win_reached g) \<and> (game_won g \<longrightarrow> game_over g)"

text \<open>
  The states of a game object: built by the constructor for a difficulty of the table from a
  sample of mine positions, then changed by any calls of \<open>reveal_cell\<close> that return and of
  \<open>toggle_flag\<close>.
\<close>

inductive reachable :: "game \<Rightarrow> bool" where
  fresh: "DIFFICULTIES dif = Some s \<Longrightarrow> is_sample s ps
            \<Longrightarrow> MinesweeperGame_init dif ps = Inr g \<Longrightarrow> reachable g"
| reveal: "reachable g \<Longrightarrow> reveal_cell limit g row col pick = Inr (changed, g')
            \<Longrightarrow> reachable g'"
| flag: "reachable g \<Longrightarrow> toggle_flag g row col = (changed, g') \<Longrightarrow> reachable g'"

text \<open>
  An easy board: the mines that the constructor's sample placed. The cell (0, 0) has no
  adjacent mine, the cell (0, 1) has one.
\<close>

definition example_mines :: "(nat \<times> nat) list" where
  "example_mines =
     [(0, 2), (2, 0), (2, 2), (8, 8), (8, 7), (8, 6), (8, 5), (8, 4), (8, 3), (8, 2)]"

text \<open>
  A round of clicks: \<open>reveal_cell\<close> called on each position of a list in turn, each call on
  the game the previous one left; an exception ends the round.
\<close>

fun reveal_cells :: "nat \<Rightarrow> game \<Rightarrow> (int \<times> int) list \<Rightarrow> py_error + game" where
  "reveal_cells limit g [] = Inr g"
| "reveal_cells limit g ((row, col) # ps) =
     (case reveal_cell limit g row col 0 of
        Inl e \<Rightarrow> Inl e
      | Inr (changed, g') \<Rightarrow> reveal_cells limit g' ps)"

section \<open>Rounding to the nearest double\<close>

lemma pow2_powr: "pow2 e = 2 powr real_of_int e"
  unfolding pow2_def by (rule powr_int [symmetric]) simp

lemma pow2_pos: "0 < pow2 e"
  by (simp add: pow2_powr)

lemma pow2_add: "pow2 (a + b) = pow2 a * pow2 b"
  by (simp add: pow2_powr powr_add)

lemma pow2_less_iff: "pow2 a < pow2 b \<longleftrightarrow> a < b"
  by (simp add: pow2_powr)

lemma pow2_le_iff: "pow2 a \<le> pow2 b \<longleftrightarrow> a \<le> b"
  by (simp add: pow2_powr)

lemma pow2_nonneg_int: "0 \<le> e \<Longrightarrow> pow2 e = of_int (2 ^ nat e)"
  by (simp add: pow2_def)

lemma bitlen_brackets:
  assumes "0 < n"
  shows "1 \<le> bitlen n" and "real_of_int n + 1 \<le> 2 ^ nat (bitlen n)"
    and "2 ^ nat (bitlen n - 1) \<le> real_of_int n"
proof -
  show b1: "1 \<le> bitlen n"
    using assms bitlen_eq_zero_iff [of n] bitlen_nonneg [of n] by linarith
  from bitlen_bounds [OF assms]
  have lo: "(2::int) ^ nat (bitlen n - 1) \<le> n" and hi: "n < 2 ^ nat (bitlen n)"
    by simp_all
  from hi have "n + 1 \<le> 2 ^ nat (bitlen n)" by simp
  then have "real_of_int (n + 1) \<le> real_of_int (2 ^ nat (bitlen n))"
    by (simp only: of_int_le_iff)
  then show "real_of_int n + 1 \<le> 2 ^ nat (bitlen n)" by simp
  from lo have "real_of_int (2 ^ nat (bitlen n - 1)) \<le> real_of_int n"
    by (simp only: of_int_le_iff)
  then show "2 ^ nat (bitlen n - 1) \<le> real_of_int n" by simp
qed

lemma binade_bracket:
  assumes "0 < a"
  shows "pow2 (binade a) \<le> a \<and> a < pow2 (binade a + 1)"
proof (cases "1 \<le> a")
  case True
  define n where "n = \<lfloor>a\<rfloor>"
  have fl: "real_of_int n \<le> a" "a < real_of_int n + 1"
    unfolding n_def by linarith+
  have n: "0 < n" unfolding n_def using True by simp
  have k: "binade a = bitlen n - 1" using True by (simp add: binade_def n_def)
  note b = bitlen_brackets [OF n]
  have p1: "pow2 (binade a) = 2 ^ nat (bitlen n - 1)"
    unfolding k using b(1) by (simp add: pow2_def)
  have p2: "pow2 (binade a + 1) = 2 ^ nat (bitlen n)"
    unfolding k using b(1) by (simp add: pow2_def)
  show ?thesis
    unfolding p1 p2 using fl b(2,3) by linarith
next
  case False
  define y where "y = 1 / a"
  define n where "n = \<lceil>y\<rceil> - 1"
  have ay: "a * y = 1" unfolding y_def using assms by simp
  have y1: "1 < y" unfolding y_def using assms False by simp
  have ce: "real_of_int n < y" "y \<le> real_of_int n + 1"
    unfolding n_def by linarith+
  have n: "0 < n" using ce(2) y1 by linarith
  have k: "binade a = - bitlen n" using False by (simp add: binade_def n_def y_def)
  note b = bitlen_brackets [OF n]
  have p1: "pow2 (binade a) = 1 / 2 ^ nat (bitlen n)"
    unfolding k using b(1) by (simp add: pow2_def)
  have p2: "pow2 (binade a + 1) = 1 / 2 ^ nat (bitlen n - 1)"
  proof (cases "bitlen n = 1")
    case True
    then show ?thesis unfolding k by (simp add: pow2_def)
  next
    case False
    with b(1) have neg: "\<not> 0 \<le> - bitlen n + 1" by simp
    have "nat (- (- bitlen n + 1)) = nat (bitlen n - 1)" by simp
    with neg show ?thesis unfolding k by (simp only: pow2_def if_False)
  qed
  have yle: "y \<le> 2 ^ nat (bitlen n)" using ce(2) b(2) by linarith
  have ygt: "2 ^ nat (bitlen n - 1) < y" using ce(1) b(3) by linarith
  have "a * y \<le> a * 2 ^ nat (bitlen n)"
    using yle assms by (intro mult_left_mono) simp_all
  then have "1 \<le> a * 2 ^ nat (bitlen n)" unfolding ay .
  then have low: "1 / 2 ^ nat (bitlen n) \<le> a"
    by (simp only: pos_divide_le_eq zero_less_power zero_less_numeral)
  have "a * 2 ^ nat (bitlen n - 1) < a * y"
    using ygt assms by (intro mult_strict_left_mono) simp_all
  then have "a * 2 ^ nat (bitlen n - 1) < 1" unfolding ay .
  then have high: "a < 1 / 2 ^ nat (bitlen n - 1)"
    by (simp only: pos_less_divide_eq zero_less_power zero_less_numeral)
  show ?thesis
    unfolding p1 p2 using low high by simp
qed

lemma round_half_even_int: "round_half_even (of_int n) = n"
  by (simp add: round_half_even_def)

lemma round_half_even_near: "\<bar>of_int (round_half_even y) - y\<bar> \<le> 1 / 2"
proof -
  have "of_int \<lfloor>y\<rfloor> \<le> y" "y < of_int \<lfloor>y\<rfloor> + 1" by linarith+
  then show ?thesis
    by (auto simp: round_half_even_def Let_def)
qed

lemma round64_zero: "round64 0 = 0"
  by (simp add: round64_def round_half_even_def)

lemma round64_near:
  "\<bar>round64 x - x\<bar> \<le> pow2 (max (binade \<bar>x\<bar>) (- 1022) - 52) / 2"
proof -
  let ?q = "pow2 (max (binade \<bar>x\<bar>) (- 1022) - 52)"
  have q: "0 < ?q" by (rule pow2_pos)
  have "round64 x - x = (of_int (round_half_even (x / ?q)) - x / ?q) * ?q"
    using q by (simp add: round64_def Let_def algebra_simps)
  then have "\<bar>round64 x - x\<bar> = \<bar>of_int (round_half_even (x / ?q)) - x / ?q\<bar> * ?q"
    using q by (simp add: abs_mult)
  also have "\<dots> \<le> 1 / 2 * ?q"
    using round_half_even_near [of "x / ?q"] q by (intro mult_right_mono) simp_all
  finally show ?thesis by simp
qed

lemma round64_double:
  assumes "is_double x"
  shows "round64 x = x"
proof (cases "x = 0")
  case True
  then show ?thesis by (simp add: round64_zero)
next
  case False
  from assms obtain m e where me: "\<bar>m\<bar> < 2 ^ 53" "- 1074 \<le> e" "e \<le> 971"
    "x = of_int m * pow2 e"
    unfolding is_double_def by blast
  define k where "k = binade \<bar>x\<bar>"
  define e' where "e' = max k (- 1022) - 52"
  have xpos: "0 < \<bar>x\<bar>" using False by simp
  have "real_of_int \<bar>m\<bar> < of_int (2 ^ 53)" using me(1) by (simp only: of_int_less_iff)
  then have m53: "\<bar>real_of_int m\<bar> < pow2 53" by (simp add: pow2_def)
  have "\<bar>x\<bar> = \<bar>real_of_int m\<bar> * pow2 e"
    unfolding me(4) using pow2_pos [of e] by (simp add: abs_mult)
  also have "\<dots> < pow2 53 * pow2 e"
    using m53 pow2_pos [of e] by (intro mult_strict_right_mono)
  also have "\<dots> = pow2 (53 + e)" by (simp only: pow2_add)
  finally have up: "\<bar>x\<bar> < pow2 (53 + e)" .
  have "pow2 k \<le> \<bar>x\<bar>" unfolding k_def using binade_bracket [OF xpos] by simp
  with up have "pow2 k < pow2 (53 + e)" by linarith
  then have "k < 53 + e" by (simp only: pow2_less_iff)
  with me(2) have le: "e' \<le> e" unfolding e'_def by simp
  have "pow2 ((e - e') + e') = pow2 (e - e') * pow2 e'" by (rule pow2_add)
  then have split: "pow2 e = pow2 (e - e') * pow2 e'" by simp
  have int: "pow2 (e - e') = of_int (2 ^ nat (e - e'))"
    using le by (intro pow2_nonneg_int) simp
  have ne: "pow2 e' \<noteq> 0" using pow2_pos [of e'] by simp
  have "x / pow2 e' = of_int m * pow2 (e - e') * pow2 e' / pow2 e'"
    using me(4) split by (simp only: mult.assoc)
  also have "\<dots> = of_int m * pow2 (e - e')" using ne by simp
  also have "\<dots> = of_int (m * 2 ^ nat (e - e'))"
    unfolding int by simp
  finally have q: "x / pow2 e' = of_int (m * 2 ^ nat (e - e'))" .
  have "round64 x = of_int (round_half_even (x / pow2 e')) * pow2 e'"
    unfolding e'_def k_def by (simp add: round64_def Let_def)
  also have "round_half_even (x / pow2 e') = m * 2 ^ nat (e - e')"
    unfolding q by (rule round_half_even_int)
  also have "of_int (m * 2 ^ nat (e - e')) * pow2 e' = x / pow2 e' * pow2 e'"
    unfolding q ..
  also have "\<dots> = x" using ne by simp
  finally show ?thesis .
qed

lemma is_double_int:
  assumes "\<bar>n\<bar> < 2 ^ 53"
  shows "is_double (of_int n)"
  unfolding is_double_def using assms by (intro exI [of _ n] exI [of _ 0]) (simp add: pow2_def)

section \<open>The ledger: facts about the table\<close>

lemma DIFFICULTIES_cases:
  assumes "DIFFICULTIES d = Some s"
  shows "s = \<lparr>rows = 9, cols = 9, mines = 10, multiplier = 3 / 2\<rparr>
       \<or> s = \<lparr>rows = 16, cols = 16, mines = 40, multiplier = 2\<rparr>
       \<or> s = \<lparr>rows = 16, cols = 30, mines = 99, multiplier = 5 / 2\<rparr>"
  using assms by (auto simp: DIFFICULTIES_def split: if_splits)

lemma DIFFICULTIES_multiplier_gt_1:
  assumes "DIFFICULTIES d = Some s"
  shows "1 < multiplier s"
  using DIFFICULTIES_cases [OF assms] by auto

lemma DIFFICULTIES_easy:
  "DIFFICULTIES ''easy'' = Some \<lparr>rows = 9, cols = 9, mines = 10, multiplier = 3 / 2\<rparr>"
  by (simp add: DIFFICULTIES_def)

lemma win_game_example:
  "win_game \<lparr>bankroll = 100, current_bet = 10, current_difficulty = ''easy''\<rparr> =
     Inr (\<lparr>outcome = ''win'', new_bankroll = 115, payout = 15, profit = 5\<rparr>,
          \<lparr>bankroll = 115, current_bet = 0, current_difficulty = ''easy''\<rparr>)"
  by code_simp

section \<open>The ledger: settlement and bet validation\<close>

text \<open>Floats of the examples below, evaluated.\<close>

lemma float_examples:
  "0 < round64 (13 / 10)" "round64 (13 / 10) \<le> 1000"
  "0 < round64 (11 / 10)" "round64 (11 / 10) \<le> 1000"
  "fmul (round64 (13 / 10)) (3 / 2) = round64 (19500000000000002 / 10 ^ 16)"
  "fsub (round64 (19500000000000002 / 10 ^ 16)) (round64 (13 / 10))
     = round64 (6500000000000001 / 10 ^ 16)"
  "fadd 100 (round64 (19500000000000002 / 10 ^ 16)) = round64 (10195 / 100)"
  "fsub 100 (round64 (11 / 10)) = round64 (989 / 10)"
  "round64 (19500000000000002 / 10 ^ 16) \<noteq> round64 (13 / 10) * (3 / 2)"
  by code_simp+

lemma MAX_DOUBLE_large: "1000 \<le> MAX_DOUBLE"
proof -
  have "(1000::real) \<le> 2 ^ 10 * 1" by simp
  also have "\<dots> \<le> 2 ^ 971 * (2 ^ 53 - 1)"
    by (intro mult_mono power_increasing) simp_all
  finally show ?thesis by (simp add: MAX_DOUBLE_def mult.commute)
qed

text \<open>
  C6. For every ledger state with a positive active bet whose recorded difficulty is an entry
  of the table, \<open>win_game\<close> computes the payout as the float product of the bet and the
  multiplier of the recorded difficulty, adds the whole payout to the bankroll (a float sum),
  computes the profit as the float difference of the payout and the bet, resets the bet to 0,
  and returns payout, profit and the new bankroll. The bet is at most \<open>MAX_BET\<close> and the
  bankroll a finite float, as in every ledger the program builds. At a bet of 1.3 on easy
  with a bankroll of 100.0 the payout is 1.9500000000000002, the profit 0.6500000000000001
  and the new bankroll 101.95.
\<close>

theorem win_game_settles:
  assumes "0 < current_bet g" and "current_bet g \<le> MAX_BET"
    and "\<bar>bankroll g\<bar> \<le> MAX_DOUBLE"
    and "DIFFICULTIES (current_difficulty g) = Some s"
  shows "win_game g =
           Inr (\<lparr>outcome = ''win'',
                 new_bankroll = fadd (bankroll g) (fmul (current_bet g) (multiplier s)),
                 payout = fmul (current_bet g) (multiplier s),
                 profit = fsub (fmul (current_bet g) (multiplier s)) (current_bet g)\<rparr>,
                g\<lparr>bankroll := fadd (bankroll g) (fmul (current_bet g) (multiplier s)),
                  current_bet := 0\<rparr>)"
  using assms by (simp add: win_game_def Let_def)

theorem win_game_settles_witness:
  "0 < current_bet \<lparr>bankroll = 100, current_bet = round64 (13 / 10), current_difficulty = ''easy''\<rparr>
   \<and> current_bet \<lparr>bankroll = 100, current_bet = round64 (13 / 10), current_difficulty = ''easy''\<rparr>
       \<le> MAX_BET
   \<and> \<bar>bankroll \<lparr>bankroll = 100, current_bet = round64 (13 / 10), current_difficulty = ''easy''\<rparr>\<bar>
       \<le> MAX_DOUBLE
   \<and> DIFFICULTIES ''easy'' = Some \<lparr>rows = 9, cols = 9, mines = 10, multiplier = 3 / 2\<rparr>
   \<and> win_game \<lparr>bankroll = 100, current_bet = round64 (13 / 10), current_difficulty = ''easy''\<rparr> =
         Inr (\<lparr>outcome = ''win'', new_bankroll = round64 (10195 / 100),
               payout = round64 (19500000000000002 / 10 ^ 16),
               profit = round64 (6500000000000001 / 10 ^ 16)\<rparr>,
              \<lparr>bankroll = round64 (10195 / 100), current_bet = 0, current_difficulty = ''easy''\<rparr>)
   \<and> round64 (19500000000000002 / 10 ^ 16) \<noteq> round64 (13 / 10) * (3 / 2)"
proof -
  let ?g = "\<lparr>bankroll = 100, current_bet = round64 (13 / 10), current_difficulty = ''easy''\<rparr>"
  let ?s = "\<lparr>rows = 9, cols = 9, mines = 10, multiplier = 3 / 2\<rparr>"
  have bet: "0 < current_bet ?g" using float_examples(1) by simp
  have cap: "current_bet ?g \<le> MAX_BET" using float_examples(2) by (simp add: MAX_BET_def)
  have fin: "\<bar>bankroll ?g\<bar> \<le> MAX_DOUBLE" using MAX_DOUBLE_large by simp
  have tier: "DIFFICULTIES ''easy'' = Some ?s"
    by (simp add: DIFFICULTIES_def)
  then have tier': "DIFFICULTIES (current_difficulty ?g) = Some ?s"
    by simp
  have "win_game ?g =
         Inr (\<lparr>outcome = ''win'', new_bankroll = round64 (10195 / 100),
               payout = round64 (19500000000000002 / 10 ^ 16),
               profit = round64 (6500000000000001 / 10 ^ 16)\<rparr>,
              \<lparr>bankroll = round64 (10195 / 100), current_bet = 0, current_difficulty = ''easy''\<rparr>)"
    using win_game_settles [OF bet cap fin tier']
    by (simp only: GamblingSystem.select_convs GamblingSystem.update_convs
        settings.select_convs float_examples(5,6,7))
  then show ?thesis
    by (intro conjI bet cap fin tier float_examples(9))
qed

text \<open>
  C2, as the claim states it, fails: the bet is not taken from the bankroll when it is placed,
  and \<open>win_game\<close> adds the whole payout, so the bankroll grows by bet times multiplier, not by
  bet times (multiplier - 1). With bankroll 100 and a bet of 10 on easy the new bankroll is
  115, not 105. Nor is the increase always strict or exact: the sum is a float sum, and at a
  bankroll of 1e17 a payout of 1.5 is absorbed.
\<close>

theorem win_game_easy_example_counterexample:
  "win_game \<lparr>bankroll = 100, current_bet = 10, current_difficulty = ''easy''\<rparr> =
     Inr (\<lparr>outcome = ''win'', new_bankroll = 115, payout = 15, profit = 5\<rparr>,
          \<lparr>bankroll = 115, current_bet = 0, current_difficulty = ''easy''\<rparr>)
   \<and> (115 :: real) \<noteq> 100 + 10 * (3 / 2 - 1)
   \<and> (115 :: real) \<noteq> 105
   \<and> win_game \<lparr>bankroll = 10 ^ 17, current_bet = 1, current_difficulty = ''easy''\<rparr> =
     Inr (\<lparr>outcome = ''win'', new_bankroll = 10 ^ 17, payout = 3 / 2, profit = 1 / 2\<rparr>,
          \<lparr>bankroll = 10 ^ 17, current_bet = 0, current_difficulty = ''easy''\<rparr>)"
  by code_simp

text \<open>
  C2, amended. For every ledger state with a positive active bet and a recorded difficulty of
  the table, \<open>win_game\<close> replaces the bankroll by the float sum of the bankroll and the payout,
  the float product of bet and multiplier; where that product and that sum are doubles, the
  bankroll strictly increases by exactly bet times multiplier. With bankroll 100 and a bet of
  10 on easy it yields payout 15, profit 5 and the new bankroll 115.
\<close>

theorem win_game_increases_bankroll:
  "(\<forall>g s. 0 < current_bet g \<and> current_bet g \<le> MAX_BET \<and> \<bar>bankroll g\<bar> \<le> MAX_DOUBLE
          \<and> DIFFICULTIES (current_difficulty g) = Some s \<longrightarrow>
       (\<exists>res g'. win_game g = Inr (res, g')
          \<and> payout res = fmul (current_bet g) (multiplier s)
          \<and> bankroll g' = fadd (bankroll g) (payout res)
          \<and> new_bankroll res = bankroll g'
          \<and> (is_double (current_bet g * multiplier s)
               \<and> is_double (bankroll g + current_bet g * multiplier s) \<longrightarrow>
             bankroll g' = bankroll g + current_bet g * multiplier s
             \<and> bankroll g < bankroll g')))
   \<and> (\<exists>g'. win_game \<lparr>bankroll = 100, current_bet = 10, current_difficulty = ''easy''\<rparr> =
         Inr (\<lparr>outcome = ''win'', new_bankroll = 115, payout = 15, profit = 5\<rparr>, g')
         \<and> bankroll g' = 115)"
proof (intro conjI allI impI)
  fix g :: GamblingSystem and s :: settings
  assume h: "0 < current_bet g \<and> current_bet g \<le> MAX_BET \<and> \<bar>bankroll g\<bar> \<le> MAX_DOUBLE
          \<and> DIFFICULTIES (current_difficulty g) = Some s"
  let ?p = "current_bet g * multiplier s"
  have "1 < multiplier s"
    using h DIFFICULTIES_multiplier_gt_1 by blast
  with h have pos: "0 < ?p"
    by simp
  have exact: "fadd (bankroll g) (fmul (current_bet g) (multiplier s)) = bankroll g + ?p"
    if d: "is_double ?p \<and> is_double (bankroll g + ?p)"
  proof -
    have m: "fmul (current_bet g) (multiplier s) = ?p"
      using d by (simp add: fmul_def round64_double)
    have "fadd (bankroll g) ?p = bankroll g + ?p"
      using d pos by (simp add: fadd_def round64_double)
    with m show ?thesis by simp
  qed
  show "\<exists>res g'. win_game g = Inr (res, g')
          \<and> payout res = fmul (current_bet g) (multiplier s)
          \<and> bankroll g' = fadd (bankroll g) (payout res)
          \<and> new_bankroll res = bankroll g'
          \<and> (is_double (current_bet g * multiplier s)
               \<and> is_double (bankroll g + current_bet g * multiplier s) \<longrightarrow>
             bankroll g' = bankroll g + current_bet g * multiplier s
             \<and> bankroll g < bankroll g')"
    using h pos exact by (simp add: win_game_def Let_def)
next
  show "\<exists>g'. win_game \<lparr>bankroll = 100, current_bet = 10, current_difficulty = ''easy''\<rparr> =
         Inr (\<lparr>outcome = ''win'', new_bankroll = 115, payout = 15, profit = 5\<rparr>, g')
         \<and> bankroll g' = 115"
    using win_game_example by simp
qed

theorem win_game_increases_bankroll_witness:
  "0 < current_bet \<lparr>bankroll = 100, current_bet = 50, current_difficulty = ''medium''\<rparr>
   \<and> current_bet \<lparr>bankroll = 100, current_bet = 50, current_difficulty = ''medium''\<rparr> \<le> MAX_BET
   \<and> \<bar>bankroll \<lparr>bankroll = 100, current_bet = 50, current_difficulty = ''medium''\<rparr>\<bar> \<le> MAX_DOUBLE
   \<and> DIFFICULTIES ''medium'' = Some \<lparr>rows = 16, cols = 16, mines = 40, multiplier = 2\<rparr>
   \<and> is_double (50 * 2) \<and> is_double (100 + 50 * 2)
   \<and> (\<exists>res g'. win_game \<lparr>bankroll = 100, current_bet = 50, current_difficulty = ''medium''\<rparr>
                  = Inr (res, g')
          \<and> payout res = 100 \<and> bankroll g' = 200 \<and> new_bankroll res = 200)"
proof -
  let ?g = "\<lparr>bankroll = 100, current_bet = 50, current_difficulty = ''medium''\<rparr>"
  let ?s = "\<lparr>rows = 16, cols = 16, mines = 40, multiplier = 2\<rparr>"
  have tier: "DIFFICULTIES ''medium'' = Some ?s"
    by (simp add: DIFFICULTIES_def)
  have fin: "\<bar>bankroll ?g\<bar> \<le> MAX_DOUBLE" using MAX_DOUBLE_large by simp
  have d1: "is_double (50 * 2)" using is_double_int [of 100] by simp
  have d2: "is_double (100 + 50 * 2)" using is_double_int [of 200] by simp
  from win_game_increases_bankroll
  have "0 < current_bet ?g \<and> current_bet ?g \<le> MAX_BET \<and> \<bar>bankroll ?g\<bar> \<le> MAX_DOUBLE
          \<and> DIFFICULTIES (current_difficulty ?g) = Some ?s \<longrightarrow>
       (\<exists>res g'. win_game ?g = Inr (res, g')
          \<and> payout res = fmul (current_bet ?g) (multiplier ?s)
          \<and> bankroll g' = fadd (bankroll ?g) (payout res)
          \<and> new_bankroll res = bankroll g'
          \<and> (is_double (current_bet ?g * multiplier ?s)
               \<and> is_double (bankroll ?g + current_bet ?g * multiplier ?s) \<longrightarrow>
             bankroll g' = bankroll ?g + current_bet ?g * multiplier ?s
             \<and> bankroll ?g < bankroll g'))"
    by blast
  with tier fin d1 d2 obtain res g' where r: "win_game ?g = Inr (res, g')"
    "payout res = fmul 50 2" "bankroll g' = 200" "new_bankroll res = bankroll g'"
    by (auto simp: MAX_BET_def)
  have "fmul 50 2 = 100" using d1 by (simp add: fmul_def round64_double)
  with r tier fin d1 d2 show ?thesis
    by (auto simp: MAX_BET_def)
qed

text \<open>
  C3, as the claim states it, fails: the code has no NoActiveBetError. With no active bet both
  settlements complete and return a result.
\<close>

theorem settle_without_bet_counterexample:
  "win_game GamblingSystem_init =
     Inr (\<lparr>outcome = ''win'', new_bankroll = 100, payout = 0, profit = 0\<rparr>, GamblingSystem_init)
   \<and> lose_game GamblingSystem_init =
     (\<lparr>outcome = ''lose'', new_bankroll = 100, loss = 0\<rparr>, GamblingSystem_init)"
  by (simp add: win_game_def lose_game_def GamblingSystem_init_def INITIAL_BANKROLL_def
      DIFFICULTIES_def Let_def fmul_def fadd_def fsub_def round64_zero)

text \<open>
  C3, amended. With an active bet of 0 neither settlement raises an error about the missing
  bet: \<open>lose_game\<close> returns a loss of 0, \<open>win_game\<close> returns a payout and a profit of 0 (or
  raises KeyError when the recorded difficulty is not in the table), and in each case the
  ledger, its bankroll included, is left as it was.
\<close>

theorem settle_without_bet:
  assumes "current_bet g = 0"
  shows "(case win_game g of
            Inl e \<Rightarrow> e = KeyError \<and> DIFFICULTIES (current_difficulty g) = None
          | Inr (res, g') \<Rightarrow>
              g' = g \<and> res = \<lparr>outcome = ''win'', new_bankroll = bankroll g,
                               payout = 0, profit = 0\<rparr>)
       \<and> lose_game g = (\<lparr>outcome = ''lose'', new_bankroll = bankroll g, loss = 0\<rparr>, g)"
  using assms
  by (simp add: win_game_def lose_game_def Let_def fmul_def fadd_def fsub_def round64_zero
      split: option.splits)

theorem settle_without_bet_witness:
  "current_bet \<lparr>bankroll = 30, current_bet = 0, current_difficulty = ''medium''\<rparr> = 0
   \<and> win_game \<lparr>bankroll = 30, current_bet = 0, current_difficulty = ''medium''\<rparr> =
       Inr (\<lparr>outcome = ''win'', new_bankroll = 30, payout = 0, profit = 0\<rparr>,
            \<lparr>bankroll = 30, current_bet = 0, current_difficulty = ''medium''\<rparr>)
   \<and> lose_game \<lparr>bankroll = 30, current_bet = 0, current_difficulty = ''medium''\<rparr> =
       (\<lparr>outcome = ''lose'', new_bankroll = 30, loss = 0\<rparr>,
        \<lparr>bankroll = 30, current_bet = 0, current_difficulty = ''medium''\<rparr>)"
proof -
  let ?g = "\<lparr>bankroll = 30, current_bet = 0, current_difficulty = ''medium''\<rparr>"
  have h: "current_bet ?g = 0" by simp
  have w: "\<exists>r. win_game ?g = Inr r"
    by (simp add: win_game_def DIFFICULTIES_def Let_def)
  show ?thesis
    using h w settle_without_bet [OF h] by auto
qed

text \<open>
  C7. \<open>place_bet\<close> returns a rejection as a value: "out of bounds" when the amount is below 1
  or above 1000, whatever the bankroll, and "insufficient funds" when an amount within the
  bounds exceeds the bankroll; every amount above the bankroll is rejected. Otherwise it
  records the amount and the difficulty. In every branch the bankroll is unchanged.
\<close>

theorem place_bet_validation:
  "(amount < 1 \<or> amount > 1000 \<longrightarrow>
      place_bet g amount d = ((False, BetOutOfBounds), g))
   \<and> (1 \<le> amount \<and> amount \<le> 1000 \<and> amount > bankroll g \<longrightarrow>
      place_bet g amount d = ((False, InsufficientFunds), g))
   \<and> (amount > bankroll g \<longrightarrow> \<not> fst (fst (place_bet g amount d)))
   \<and> (1 \<le> amount \<and> amount \<le> 1000 \<and> amount \<le> bankroll g \<longrightarrow>
      place_bet g amount d =
        ((True, BetPlaced amount d), g\<lparr>current_bet := amount, current_difficulty := d\<rparr>))
   \<and> bankroll (snd (place_bet g amount d)) = bankroll g"
  by (simp add: place_bet_def MIN_BET_def MAX_BET_def)

theorem place_bet_validation_witness:
  "place_bet GamblingSystem_init (1 / 2) ''easy'' = ((False, BetOutOfBounds), GamblingSystem_init)
   \<and> place_bet GamblingSystem_init 1001 ''easy'' = ((False, BetOutOfBounds), GamblingSystem_init)
   \<and> place_bet \<lparr>bankroll = 10, current_bet = 0, current_difficulty = ''easy''\<rparr> 50 ''easy'' =
       ((False, InsufficientFunds), \<lparr>bankroll = 10, current_bet = 0, current_difficulty = ''easy''\<rparr>)
   \<and> place_bet GamblingSystem_init 50 ''hard'' =
       ((True, BetPlaced 50 ''hard''),
        \<lparr>bankroll = 100, current_bet = 50, current_difficulty = ''hard''\<rparr>)"
  using place_bet_validation [of "1 / 2" GamblingSystem_init "''easy''"]
    place_bet_validation [of 1001 GamblingSystem_init "''easy''"]
    place_bet_validation [of 50 "\<lparr>bankroll = 10, current_bet = 0, current_difficulty = ''easy''\<rparr>"
      "''easy''"]
    place_bet_validation [of 50 GamblingSystem_init "''hard''"]
  by (simp add: GamblingSystem_init_def INITIAL_BANKROLL_def)

text \<open>
  C8, as the claim states it, fails: the subtraction is a float subtraction. With bankroll
  100.0 and a bet of 1.1 the new bankroll is 98.9, and the difference between the two
  bankrolls is not the bet; at a bankroll of 1e17 a bet of 1.0 is absorbed and the bankroll
  does not decrease at all.
\<close>

theorem lose_game_rounds_counterexample:
  "lose_game \<lparr>bankroll = 100, current_bet = round64 (11 / 10), current_difficulty = ''easy''\<rparr> =
     (\<lparr>outcome = ''lose'', new_bankroll = round64 (989 / 10), loss = round64 (11 / 10)\<rparr>,
      \<lparr>bankroll = round64 (989 / 10), current_bet = 0, current_difficulty = ''easy''\<rparr>)
   \<and> 100 - round64 (989 / 10) \<noteq> round64 (11 / 10)
   \<and> lose_game \<lparr>bankroll = 10 ^ 17, current_bet = 1, current_difficulty = ''easy''\<rparr> =
     (\<lparr>outcome = ''lose'', new_bankroll = 10 ^ 17, loss = 1\<rparr>,
      \<lparr>bankroll = 10 ^ 17, current_bet = 0, current_difficulty = ''easy''\<rparr>)"
  by code_simp

text \<open>
  C8, amended. For every ledger state with a positive active bet, \<open>lose_game\<close> replaces the
  bankroll by the float difference of the bankroll and the bet, resets the bet to 0 and
  returns the loss (the former bet) and the new bankroll. Where the exact difference is a
  double, the bankroll decreases by exactly the former bet. Nothing clamps the bankroll: when
  the bet exceeds it, the new bankroll is negative (bankroll 5, bet 10 gives - 5).
\<close>

theorem lose_game_settles:
  assumes "0 < current_bet g" and "current_bet g \<le> MAX_BET"
    and "\<bar>bankroll g\<bar> \<le> MAX_DOUBLE"
  shows "lose_game g =
           (\<lparr>outcome = ''lose'', new_bankroll = fsub (bankroll g) (current_bet g),
             loss = current_bet g\<rparr>,
            g\<lparr>bankroll := fsub (bankroll g) (current_bet g), current_bet := 0\<rparr>)
       \<and> (is_double (bankroll g - current_bet g) \<longrightarrow>
            bankroll (snd (lose_game g)) = bankroll g - current_bet g
            \<and> bankroll (snd (lose_game g)) < bankroll g
            \<and> (bankroll g < current_bet g \<longrightarrow> bankroll (snd (lose_game g)) < 0))"
proof -
  have "fsub (bankroll g) (current_bet g) = bankroll g - current_bet g"
    if "is_double (bankroll g - current_bet g)"
    using that assms(1) by (simp add: fsub_def round64_double)
  then show ?thesis
    using assms(1) by (simp add: lose_game_def Let_def)
qed

theorem lose_game_settles_witness:
  "0 < current_bet \<lparr>bankroll = 5, current_bet = 10, current_difficulty = ''easy''\<rparr>
   \<and> current_bet \<lparr>bankroll = 5, current_bet = 10, current_difficulty = ''easy''\<rparr> \<le> MAX_BET
   \<and> \<bar>bankroll \<lparr>bankroll = 5, current_bet = 10, current_difficulty = ''easy''\<rparr>\<bar> \<le> MAX_DOUBLE
   \<and> is_double (5 - 10)
   \<and> bankroll \<lparr>bankroll = 5, current_bet = 10, current_difficulty = ''easy''\<rparr>
       < current_bet \<lparr>bankroll = 5, current_bet = 10, current_difficulty = ''easy''\<rparr>
   \<and> lose_game \<lparr>bankroll = 5, current_bet = 10, current_difficulty = ''easy''\<rparr> =
       (\<lparr>outcome = ''lose'', new_bankroll = - 5, loss = 10\<rparr>,
        \<lparr>bankroll = - 5, current_bet = 0, current_difficulty = ''easy''\<rparr>)
   \<and> bankroll (snd (lose_game \<lparr>bankroll = 5, current_bet = 10, current_difficulty = ''easy''\<rparr>)) < 0"
proof -
  let ?g = "\<lparr>bankroll = 5, current_bet = 10, current_difficulty = ''easy''\<rparr>"
  have bet: "0 < current_bet ?g" by simp
  have cap: "current_bet ?g \<le> MAX_BET" by (simp add: MAX_BET_def)
  have fin: "\<bar>bankroll ?g\<bar> \<le> MAX_DOUBLE" using MAX_DOUBLE_large by simp
  have d: "is_double (5 - 10)" using is_double_int [of "- 5"] by simp
  then have sub: "fsub 5 10 = - 5" by (simp add: fsub_def round64_double)
  show ?thesis
    using bet cap fin d lose_game_settles [OF bet cap fin] by (simp add: sub)
qed

section \<open>The grid: matrices, construction, flood fill\<close>

lemma shaped_replicate: "shaped n m (replicate n (replicate m x))"
  by (simp add: shaped_def)

lemma shaped_row: "shaped n m xs \<Longrightarrow> r < n \<Longrightarrow> length (xs ! r) = m"
  by (simp add: shaped_def)

lemma shaped_upd: 
  assumes "shaped n m xs" 
  shows "shaped n m (xs[r := (xs ! r)[c := v]])"
proof (cases "r < n")
  case True
  have "set (xs[r := (xs ! r)[c := v]]) \<subseteq> insert ((xs ! r)[c := v]) (set xs)"
    by (rule set_update_subset_insert)
  moreover have "length ((xs ! r)[c := v]) = m"
    using assms True by (simp add: shaped_row)
  ultimately show ?thesis
    using assms by (auto simp: shaped_def)
next
  case False
  with assms have "length xs \<le> r"
    by (simp add: shaped_def)
  then have "xs[r := (xs ! r)[c := v]] = xs"
    by (rule list_update_beyond)
  with assms show ?thesis by simp
qed

lemma nth_upd2:
  assumes "shaped n m xs" and "r < n" and "c < m" and "r' < n" and "c' < m"
  shows "xs[r := (xs ! r)[c := v]] ! r' ! c' = (if r' = r \<and> c' = c then v else xs ! r' ! c')"
  using assms by (auto simp: shaped_def nth_list_update)

lemma cells_product: "cells n m = List.product [0..<n] [0..<m]"
proof -
  have "concat (map (\<lambda>r. map (Pair r) ys) xs) = List.product xs ys" for xs :: "nat list" and ys :: "nat list"
    by (induction xs) simp_all
  then show ?thesis
    by (simp add: cells_def)
qed

lemma set_cells: "set (cells n m) = {(r, c). r < n \<and> c < m}"
  by (auto simp: cells_product)

lemma distinct_cells: "distinct (cells n m)"
  by (simp add: cells_product distinct_product)

lemma length_cells: "length (cells n m) = n * m"
  by (simp add: cells_product)

lemma place_fold:
  assumes "shaped n m b" and "\<forall>(r, c) \<in> set ps. r < n \<and> c < m"
  shows "shaped n m (fold (\<lambda>(r, c) b. b[r := (b ! r)[c := - 1]]) ps b)
       \<and> (\<forall>r < n. \<forall>c < m.
            fold (\<lambda>(r, c) b. b[r := (b ! r)[c := - 1]]) ps b ! r ! c
              = (if (r, c) \<in> set ps then - 1 else b ! r ! c))"
  using assms
proof (induction ps arbitrary: b)
  case Nil
  then show ?case by simp
next
  case (Cons p ps)
  obtain pr pc where p: "p = (pr, pc)" by (cases p)
  let ?b1 = "b[pr := (b ! pr)[pc := - 1]]"
  have s1: "shaped n m ?b1"
    using Cons.prems(1) by (rule shaped_upd)
  have in_range: "pr < n" "pc < m"
    using Cons.prems(2) p by auto
  have rest: "\<forall>(r, c) \<in> set ps. r < n \<and> c < m"
    using Cons.prems(2) by simp
  from Cons.IH [OF s1 rest] p in_range Cons.prems(1)
  show ?case
    by (auto simp: nth_upd2)
qed

lemma mine_count_cong:
  assumes "\<forall>r < n. \<forall>c < m. (b ! r ! c = - 1) = (b' ! r ! c = - 1)"
  shows "mine_count n m b r c = mine_count n m b' r c"
proof -
  have "(0 \<le> nr \<and> nr < int n \<and> 0 \<le> nc \<and> nc < int m \<and> b ! nat nr ! nat nc = - 1)
      = (0 \<le> nr \<and> nr < int n \<and> 0 \<le> nc \<and> nc < int m \<and> b' ! nat nr ! nat nc = - 1)"
    for nr nc
    using assms by (auto simp: nat_less_iff)
  then show ?thesis
    by (simp add: mine_count_def Let_def)
qed

lemma calc_cell_props:
  assumes "shaped n m b" and "pr < n" and "pc < m"
  shows "shaped n m (calc_cell n m (pr, pc) b)"
    and "\<forall>r < n. \<forall>c < m. calc_cell n m (pr, pc) b ! r ! c
           = (if (r, c) = (pr, pc) \<and> b ! r ! c \<noteq> - 1 then int (mine_count n m b r c) else b ! r ! c)"
  using assms by (auto simp: calc_cell_def shaped_upd nth_upd2)

lemma calc_fold:
  assumes "shaped n m b" and "\<forall>(r, c) \<in> set cs. r < n \<and> c < m"
  shows "shaped n m (fold (calc_cell n m) cs b)
       \<and> (\<forall>r < n. \<forall>c < m.
            fold (calc_cell n m) cs b ! r ! c
              = (if (r, c) \<in> set cs \<and> b ! r ! c \<noteq> - 1 then int (mine_count n m b r c)
                 else b ! r ! c))"
  using assms
proof (induction cs arbitrary: b)
  case Nil
  then show ?case by simp
next
  case (Cons p cs)
  obtain pr pc where p: "p = (pr, pc)" by (cases p)
  let ?b1 = "calc_cell n m (pr, pc) b"
  have in_range: "pr < n" "pc < m"
    using Cons.prems(2) p by auto
  have s1: "shaped n m ?b1"
    and v1: "\<forall>r < n. \<forall>c < m. ?b1 ! r ! c
           = (if (r, c) = (pr, pc) \<and> b ! r ! c \<noteq> - 1 then int (mine_count n m b r c) else b ! r ! c)"
    using calc_cell_props [OF Cons.prems(1) in_range] by blast+
  have same: "\<forall>r < n. \<forall>c < m. (?b1 ! r ! c = - 1) = (b ! r ! c = - 1)"
    using v1 by auto
  have cnt: "mine_count n m ?b1 r c = mine_count n m b r c" for r c
    using same by (rule mine_count_cong)
  have rest: "\<forall>(r, c) \<in> set cs. r < n \<and> c < m"
    using Cons.prems(2) by simp
  from Cons.IH [OF s1 rest] have
    ih1: "shaped n m (fold (calc_cell n m) cs ?b1)" and
    ih2: "\<forall>r < n. \<forall>c < m.
            fold (calc_cell n m) cs ?b1 ! r ! c
              = (if (r, c) \<in> set cs \<and> ?b1 ! r ! c \<noteq> - 1 then int (mine_count n m ?b1 r c)
                 else ?b1 ! r ! c)"
    by blast+
  show ?case
  proof (intro conjI allI impI)
    show "shaped n m (fold (calc_cell n m) (p # cs) b)"
      using ih1 p by simp
  next
    fix r c assume rc: "r < n" "c < m"
    have "fold (calc_cell n m) (p # cs) b ! r ! c = fold (calc_cell n m) cs ?b1 ! r ! c"
      using p by simp
    also have "\<dots> = (if (r, c) \<in> set cs \<and> ?b1 ! r ! c \<noteq> - 1 then int (mine_count n m b r c)
                 else ?b1 ! r ! c)"
      using ih2 rc cnt by simp
    also have "\<dots> = (if (r, c) \<in> set (p # cs) \<and> b ! r ! c \<noteq> - 1 then int (mine_count n m b r c)
                 else b ! r ! c)"
      using v1 same rc p by auto
    finally show "fold (calc_cell n m) (p # cs) b ! r ! c =
           (if (r, c) \<in> set (p # cs) \<and> b ! r ! c \<noteq> - 1 then int (mine_count n m b r c) else b ! r ! c)" .
  qed
qed

lemma calculate_numbers_alt:
  "calculate_numbers g = g\<lparr>board := fold (calc_cell (rows g) (cols g)) (cells (rows g) (cols g)) (board g)\<rparr>"
  by (simp add: calculate_numbers_def calc_cell_def)

lemma calculate_numbers_props:
  assumes "shaped (rows g) (cols g) (board g)"
  shows "shaped (rows g) (cols g) (board (calculate_numbers g))"
    and "mine_cells (rows g) (cols g) (board (calculate_numbers g)) = mine_cells (rows g) (cols g) (board g)"
    and "adj_ok (rows g) (cols g) (board (calculate_numbers g))"
proof -
  let ?n = "rows g" and ?m = "cols g"
  let ?b' = "fold (calc_cell ?n ?m) (cells ?n ?m) (board g)"
  have rng: "\<forall>(r, c) \<in> set (cells ?n ?m). r < ?n \<and> c < ?m"
    by (simp add: set_cells)
  from calc_fold [OF assms rng] have
    s: "shaped ?n ?m ?b'" and
    v: "\<forall>r < ?n. \<forall>c < ?m. ?b' ! r ! c
          = (if board g ! r ! c \<noteq> - 1 then int (mine_count ?n ?m (board g) r c) else board g ! r ! c)"
    by (simp_all add: set_cells)
  have same: "\<forall>r < ?n. \<forall>c < ?m. (?b' ! r ! c = - 1) = (board g ! r ! c = - 1)"
    using v by auto
  have cnt: "mine_count ?n ?m ?b' r c = mine_count ?n ?m (board g) r c" for r c
    using same by (rule mine_count_cong)
  show "shaped (rows g) (cols g) (board (calculate_numbers g))"
    using s by (simp add: calculate_numbers_alt)
  show "mine_cells (rows g) (cols g) (board (calculate_numbers g)) = mine_cells (rows g) (cols g) (board g)"
    using same by (auto simp: calculate_numbers_alt mine_cells_def)
  show "adj_ok (rows g) (cols g) (board (calculate_numbers g))"
    using v cnt by (auto simp: calculate_numbers_alt adj_ok_def)
qed

lemma calculate_numbers_fields:
  "rows (calculate_numbers g) = rows g" "cols (calculate_numbers g) = cols g"
  "mines (calculate_numbers g) = mines g"
  "revealed (calculate_numbers g) = revealed g" "flagged (calculate_numbers g) = flagged g"
  "game_over (calculate_numbers g) = game_over g" "game_won (calculate_numbers g) = game_won g"
  "first_click (calculate_numbers g) = first_click g"
  by (simp_all add: calculate_numbers_def)

lemma set_offsets:
  "(dr, dc) \<in> set offsets \<longleftrightarrow>
     - 1 \<le> dr \<and> dr \<le> 1 \<and> - 1 \<le> dc \<and> dc \<le> 1 \<and> \<not> (dr = 0 \<and> dc = 0)"
proof -
  have three: "- 1 \<le> d \<and> d \<le> 1 \<longleftrightarrow> d = - 1 \<or> d = 0 \<or> d = 1" for d :: int
    by arith
  have "(dr, dc) \<in> set offsets \<longleftrightarrow>
     (dr = - 1 \<or> dr = 0 \<or> dr = 1) \<and> (dc = - 1 \<or> dc = 0 \<or> dc = 1) \<and> \<not> (dr = 0 \<and> dc = 0)"
    by (auto simp: offsets_def)
  then show ?thesis
    using three [of dr] three [of dc] by blast
qed

lemma distinct_offsets: "distinct offsets"
  by (simp add: offsets_def)

lemma fresh_game_fields:
  "rows (fresh_game s dif ps) = rows s" "cols (fresh_game s dif ps) = cols s"
  "mines (fresh_game s dif ps) = mines s" "multiplier (fresh_game s dif ps) = multiplier s"
  "difficulty (fresh_game s dif ps) = dif"
  "revealed (fresh_game s dif ps) = replicate (rows s) (replicate (cols s) False)"
  "flagged (fresh_game s dif ps) = replicate (rows s) (replicate (cols s) False)"
  "first_click (fresh_game s dif ps)" "\<not> game_over (fresh_game s dif ps)"
  "\<not> game_won (fresh_game s dif ps)"
  by (simp_all add: fresh_game_def calculate_numbers_def place_mines_def)

lemma fresh_game_board:
  assumes "is_sample s ps"
  shows "shaped (rows s) (cols s) (board (fresh_game s dif ps))"
    and "mine_cells (rows s) (cols s) (board (fresh_game s dif ps)) = set ps"
    and "adj_ok (rows s) (cols s) (board (fresh_game s dif ps))"
proof -
  let ?g0 = "\<lparr>rows = rows s, cols = cols s, mines = mines s, multiplier = multiplier s,
        difficulty = dif,
        board = replicate (rows s) (replicate (cols s) 0),
        revealed = replicate (rows s) (replicate (cols s) False),
        flagged = replicate (rows s) (replicate (cols s) False),
        game_over = False, game_won = False, first_click = True\<rparr>"
  let ?g1 = "place_mines ?g0 ps"
  have rng: "\<forall>(r, c) \<in> set ps. r < rows s \<and> c < cols s"
    using assms by (simp add: is_sample_def)
  have s0: "shaped (rows s) (cols s) (replicate (rows s) (replicate (cols s) (0::int)))"
    by (rule shaped_replicate)
  from place_fold [OF s0 rng] have
    s1: "shaped (rows ?g1) (cols ?g1) (board ?g1)" and
    v1: "\<forall>r < rows s. \<forall>c < cols s. board ?g1 ! r ! c = (if (r, c) \<in> set ps then - 1 else 0)"
    by (simp_all add: place_mines_def)
  have m1: "mine_cells (rows s) (cols s) (board ?g1) = set ps"
  proof (intro set_eqI iffI)
    fix p assume "p \<in> mine_cells (rows s) (cols s) (board ?g1)"
    then obtain r c where p: "p = (r, c)" "r < rows s" "c < cols s" "board ?g1 ! r ! c = - 1"
      unfolding mine_cells_def by blast
    from v1 p(2,3) have "board ?g1 ! r ! c = (if (r, c) \<in> set ps then - 1 else 0)"
      by blast
    with p(4) have "(r, c) \<in> set ps"
      by (simp split: if_splits)
    with p(1) show "p \<in> set ps" by simp
  next
    fix p assume pin: "p \<in> set ps"
    obtain r c where p: "p = (r, c)" by (cases p)
    from rng pin p have r: "r < rows s" "c < cols s" by auto
    with v1 have "board ?g1 ! r ! c = (if (r, c) \<in> set ps then - 1 else 0)"
      by blast
    with pin p r show "p \<in> mine_cells (rows s) (cols s) (board ?g1)"
      unfolding mine_cells_def by simp
  qed
  have g: "fresh_game s dif ps = calculate_numbers ?g1"
    by (simp add: fresh_game_def)
  have dims: "rows ?g1 = rows s" "cols ?g1 = cols s"
    by (simp_all add: place_mines_def)
  show "shaped (rows s) (cols s) (board (fresh_game s dif ps))"
    using calculate_numbers_props(1) [OF s1] dims g by simp
  show "mine_cells (rows s) (cols s) (board (fresh_game s dif ps)) = set ps"
    using calculate_numbers_props(2) [OF s1] dims g m1 by simp
  show "adj_ok (rows s) (cols s) (board (fresh_game s dif ps))"
    using calculate_numbers_props(3) [OF s1] dims g by simp
qed

lemma fresh_game_wf:
  assumes "is_sample s ps"
  shows "wf_game (fresh_game s dif ps)"
  using fresh_game_board(1) [OF assms]
  by (simp add: wf_game_def fresh_game_fields shaped_replicate)

lemma mine_count_card:
  assumes "r < n" and "c < m"
  shows "mine_count n m b r c =
           card {(r', c'). r' < n \<and> c' < m \<and> (r', c') \<noteq> (r, c)
                  \<and> \<bar>int r' - int r\<bar> \<le> 1 \<and> \<bar>int c' - int c\<bar> \<le> 1 \<and> b ! r' ! c' = - 1}"
proof -
  define A where "A = {(dr, dc). (dr, dc) \<in> set offsets \<and> 0 \<le> int r + dr \<and> int r + dr < int n
                        \<and> 0 \<le> int c + dc \<and> int c + dc < int m
                        \<and> b ! nat (int r + dr) ! nat (int c + dc) = - 1}"
  define f where "f = (\<lambda>(dr, dc). (nat (int r + dr), nat (int c + dc)))"
  define B where "B = {(r', c'). r' < n \<and> c' < m \<and> (r', c') \<noteq> (r, c)
                  \<and> \<bar>int r' - int r\<bar> \<le> 1 \<and> \<bar>int c' - int c\<bar> \<le> 1 \<and> b ! r' ! c' = - 1}"
  have "mine_count n m b r c =
          card ({d. case d of (dr, dc) \<Rightarrow> let nr = int r + dr; nc = int c + dc
               in 0 \<le> nr \<and> nr < int n \<and> 0 \<le> nc \<and> nc < int m \<and> b ! nat nr ! nat nc = - 1}
                \<inter> set offsets)"
    unfolding mine_count_def using distinct_offsets by (rule distinct_length_filter)
  also have "{d. case d of (dr, dc) \<Rightarrow> let nr = int r + dr; nc = int c + dc
               in 0 \<le> nr \<and> nr < int n \<and> 0 \<le> nc \<and> nc < int m \<and> b ! nat nr ! nat nc = - 1}
                \<inter> set offsets = A"
    unfolding A_def Let_def by blast
  finally have cnt: "mine_count n m b r c = card A" .
  have inj: "inj_on f A"
  proof (rule inj_onI)
    fix x y assume "x \<in> A" "y \<in> A" "f x = f y"
    then show "x = y"
      unfolding A_def f_def by (cases x, cases y) (auto simp: eq_nat_nat_iff)
  qed
  have sub1: "f ` A \<subseteq> B"
  proof
    fix p assume "p \<in> f ` A"
    then obtain dr dc where d: "(dr, dc) \<in> A" "p = (nat (int r + dr), nat (int c + dc))"
      unfolding f_def by auto
    from d(1) have off: "- 1 \<le> dr \<and> dr \<le> 1 \<and> - 1 \<le> dc \<and> dc \<le> 1 \<and> \<not> (dr = 0 \<and> dc = 0)"
      unfolding A_def by (simp add: set_offsets)
    from d(1) have rng: "0 \<le> int r + dr" "int r + dr < int n" "0 \<le> int c + dc" "int c + dc < int m"
      "b ! nat (int r + dr) ! nat (int c + dc) = - 1"
      unfolding A_def by simp_all
    have e: "int (nat (int r + dr)) = int r + dr" "int (nat (int c + dc)) = int c + dc"
      using rng by simp_all
    have "nat (int r + dr) < n" "nat (int c + dc) < m" using rng e by linarith+
    moreover have "(nat (int r + dr), nat (int c + dc)) \<noteq> (r, c)"
    proof
      assume "(nat (int r + dr), nat (int c + dc)) = (r, c)"
      then have "int (nat (int r + dr)) = int r" "int (nat (int c + dc)) = int c" by simp_all
      with e have "dr = 0" "dc = 0" by linarith+
      with off show False by simp
    qed
    moreover have "\<bar>int (nat (int r + dr)) - int r\<bar> \<le> 1" "\<bar>int (nat (int c + dc)) - int c\<bar> \<le> 1"
      using off e by linarith+
    ultimately show "p \<in> B"
      unfolding B_def using d(2) rng(5) by simp
  qed
  have sub2: "B \<subseteq> f ` A"
  proof
    fix p assume pB: "p \<in> B"
    obtain r' c' where p: "p = (r', c')" by (cases p)
    from pB p have h: "r' < n" "c' < m" "(r', c') \<noteq> (r, c)"
      "\<bar>int r' - int r\<bar> \<le> 1" "\<bar>int c' - int c\<bar> \<le> 1" "b ! r' ! c' = - 1"
      unfolding B_def by simp_all
    let ?dr = "int r' - int r" and ?dc = "int c' - int c"
    have "\<not> (?dr = 0 \<and> ?dc = 0)"
      using h(3) by auto
    moreover have "- 1 \<le> ?dr \<and> ?dr \<le> 1 \<and> - 1 \<le> ?dc \<and> ?dc \<le> 1"
      using h(4,5) by linarith
    ultimately have "(?dr, ?dc) \<in> set offsets"
      by (simp only: set_offsets) simp
    moreover have "int r + ?dr = int r'" "int c + ?dc = int c'" by simp_all
    ultimately have "(?dr, ?dc) \<in> A"
      unfolding A_def using h(1,2,6) by simp
    moreover have "f (?dr, ?dc) = p"
      unfolding f_def using p by simp
    ultimately show "p \<in> f ` A" by (rule rev_image_eqI [OF _ sym])
  qed
  have "card (f ` A) = card A"
    using inj by (rule card_image)
  moreover have "f ` A = B"
    using sub1 sub2 by (rule equalityI)
  ultimately show ?thesis
    using cnt unfolding B_def by simp
qed

lemma for_each_invariant:
  assumes "for_each xs body s = Some s'" and "P s"
    and "\<And>x a b. x \<in> set xs \<Longrightarrow> P a \<Longrightarrow> body x a = Some b \<Longrightarrow> P b"
  shows "P s'"
  using assms
proof (induction xs arbitrary: s)
  case Nil
  then show ?case by simp
next
  case (Cons x xs)
  from Cons.prems(1) obtain s1 where s1: "body x s = Some s1" "for_each xs body s1 = Some s'"
    by (auto split: option.splits)
  have p1: "P s1" using Cons.prems(3) [of x s s1] Cons.prems(2) s1(1) by simp
  show ?case
  proof (rule Cons.IH [OF s1(2) p1])
    fix y a b
    assume "y \<in> set xs" and "P a" and "body y a = Some b"
    then show "P b" using Cons.prems(3) [of y a b] by simp
  qed
qed

lemma for_each_total:
  assumes "P s"
    and "\<And>x a. x \<in> set xs \<Longrightarrow> P a \<Longrightarrow> \<exists>b. body x a = Some b \<and> P b"
  shows "\<exists>s'. for_each xs body s = Some s' \<and> P s'"
  using assms
proof (induction xs arbitrary: s)
  case Nil
  then show ?case by simp
next
  case (Cons x xs)
  from Cons.prems obtain s1 where s1: "body x s = Some s1" "P s1"
    by (meson list.set_intros(1))
  from Cons.IH [OF s1(2)] Cons.prems(2) obtain s' where "for_each xs body s1 = Some s'" "P s'"
    by (meson list.set_intros(2))
  with s1 show ?case by simp
qed

lemma ff_rel_refl: "wf_game g \<Longrightarrow> ff_rel g g"
  unfolding ff_rel_def wf_game_def by (intro exI [of _ "revealed g"]) simp

lemma ff_rel_trans:
  assumes "ff_rel a b" and "ff_rel b c"
  shows "ff_rel a c"
proof -
  from assms(1) obtain R where R: "b = a\<lparr>revealed := R\<rparr>" "shaped (rows a) (cols a) R"
    "\<forall>r < rows a. \<forall>c < cols a. revealed a ! r ! c \<longrightarrow> R ! r ! c"
    unfolding ff_rel_def by blast
  from assms(2) obtain S where S: "c = b\<lparr>revealed := S\<rparr>" "shaped (rows b) (cols b) S"
    "\<forall>r < rows b. \<forall>c < cols b. revealed b ! r ! c \<longrightarrow> S ! r ! c"
    unfolding ff_rel_def by blast
  have "c = a\<lparr>revealed := S\<rparr>" using R(1) S(1) by simp
  moreover have "shaped (rows a) (cols a) S" using R(1) S(2) by simp
  moreover have "\<forall>r < rows a. \<forall>c < cols a. revealed a ! r ! c \<longrightarrow> S ! r ! c"
    using R(1,3) S(3) by simp
  ultimately show ?thesis unfolding ff_rel_def by blast
qed

lemma ff_rel_fields:
  assumes "ff_rel g g'"
  shows "rows g' = rows g" "cols g' = cols g" "mines g' = mines g" "board g' = board g"
    "flagged g' = flagged g" "game_over g' = game_over g" "game_won g' = game_won g"
    "first_click g' = first_click g"
  using assms unfolding ff_rel_def by auto

lemma ff_rel_wf:
  assumes "ff_rel g g'" and "wf_game g"
  shows "wf_game g'"
  using assms unfolding ff_rel_def wf_game_def by auto

lemma finite_hidden: "finite {(r, c). r < (n::nat) \<and> c < (m::nat) \<and> Q r c}"
proof -
  have "{(r, c). r < n \<and> c < m \<and> Q r c} \<subseteq> {..<n} \<times> {..<m}" by auto
  then show ?thesis by (rule finite_subset) simp
qed

lemma ff_rel_hidden:
  assumes "ff_rel g g'"
  shows "hidden g' \<le> hidden g"
proof -
  from assms obtain R where R: "g' = g\<lparr>revealed := R\<rparr>"
    "\<forall>r < rows g. \<forall>c < cols g. revealed g ! r ! c \<longrightarrow> R ! r ! c"
    unfolding ff_rel_def by blast
  have "{(r, c). r < rows g \<and> c < cols g \<and> \<not> R ! r ! c}
      \<subseteq> {(r, c). r < rows g \<and> c < cols g \<and> \<not> revealed g ! r ! c}"
    using R(2) by auto
  then show ?thesis
    unfolding hidden_def using R(1) by (simp add: card_mono finite_hidden)
qed

lemma mark_rel:
  assumes "wf_game g" and "is_valid_position g row col"
  shows "ff_rel g (mark g row col)"
proof -
  have r: "nat row < rows g" "nat col < cols g"
    using assms(2) by (auto simp: is_valid_position_def)
  have s: "shaped (rows g) (cols g) (revealed g)"
    using assms(1) by (simp add: wf_game_def)
  show ?thesis
    unfolding ff_rel_def mark_def
    using shaped_upd [OF s, of "nat row" "nat col" True]
      nth_upd2 [OF s r, where v = True]
    by (intro exI [of _ "(revealed g)[nat row := (revealed g ! nat row)[nat col := True]]"]) simp
qed

lemma mark_hidden:
  assumes "wf_game g" and "is_valid_position g row col" and "\<not> revealed g ! nat row ! nat col"
  shows "hidden (mark g row col) < hidden g"
proof -
  have r: "nat row < rows g" "nat col < cols g"
    using assms(2) by (auto simp: is_valid_position_def)
  have s: "shaped (rows g) (cols g) (revealed g)"
    using assms(1) by (simp add: wf_game_def)
  let ?A = "{(r, c). r < rows g \<and> c < cols g \<and> \<not> revealed g ! r ! c}"
  let ?B = "{(r, c). r < rows g \<and> c < cols g \<and> \<not> revealed (mark g row col) ! r ! c}"
  have "?B \<subseteq> ?A - {(nat row, nat col)}"
    using nth_upd2 [OF s r, where v = True] by (auto simp: mark_def split: if_splits)
  moreover have "(nat row, nat col) \<in> ?A"
    using r assms(3) by simp
  ultimately have "?B \<subset> ?A" by blast
  then have "card ?B < card ?A"
    by (simp add: psubset_card_mono finite_hidden)
  then show ?thesis
    by (simp add: hidden_def mark_def)
qed

declare flood_fill.simps [simp del]

lemma flood_fill_0: "flood_fill 0 g row col = None"
  by (simp add: flood_fill.simps)

lemma flood_fill_Suc:
  "flood_fill (Suc d) g row col =
     (if \<not> is_valid_position g row col \<or> revealed g ! nat row ! nat col then Some g
      else if board g ! nat row ! nat col = 0 then
             for_each offsets (\<lambda>(dr, dc) s. flood_fill d s (row + dr) (col + dc)) (mark g row col)
           else Some (mark g row col))"
  by (simp add: flood_fill.simps mark_def Let_def)

lemma flood_fill_rel:
  assumes "wf_game g" and "flood_fill d g row col = Some g'"
  shows "ff_rel g g'"
  using assms
proof (induction d arbitrary: g row col g')
  case 0
  then show ?case by (simp add: flood_fill_0)
next
  case (Suc d)
  show ?case
  proof (cases "\<not> is_valid_position g row col \<or> revealed g ! nat row ! nat col")
    case True
    with Suc.prems show ?thesis
      by (simp add: flood_fill_Suc ff_rel_refl)
  next
    case False
    then have m: "ff_rel g (mark g row col)"
      using Suc.prems(1) by (simp add: mark_rel)
    show ?thesis
    proof (cases "board g ! nat row ! nat col = 0")
      case zero: True
      from Suc.prems(2) False zero
      have loop: "for_each offsets (\<lambda>(dr, dc) s. flood_fill d s (row + dr) (col + dc))
                    (mark g row col) = Some g'"
        by (simp add: flood_fill_Suc)
      show ?thesis
      proof (rule for_each_invariant [OF loop, where P = "ff_rel g"])
        show "ff_rel g (mark g row col)" by (rule m)
      next
        fix x :: "int \<times> int" and a b
        assume a: "ff_rel g a"
          and b: "(case x of (dr, dc) \<Rightarrow> \<lambda>s. flood_fill d s (row + dr) (col + dc)) a = Some b"
        have "wf_game a" using a Suc.prems(1) by (rule ff_rel_wf)
        then have "ff_rel a b"
          using b Suc.IH by (auto split: prod.splits)
        with a show "ff_rel g b" by (rule ff_rel_trans)
      qed
    next
      case nonzero: False
      with Suc.prems(2) False m show ?thesis
        by (simp add: flood_fill_Suc)
    qed
  qed
qed

lemma flood_fill_total:
  assumes "wf_game g" and "hidden g < d"
  shows "\<exists>g'. flood_fill d g row col = Some g'"
  using assms
proof (induction d arbitrary: g row col)
  case 0
  then show ?case by (simp add: flood_fill_0)
next
  case (Suc d)
  show ?case
  proof (cases "\<not> is_valid_position g row col \<or> revealed g ! nat row ! nat col")
    case True
    then show ?thesis by (simp add: flood_fill_Suc)
  next
    case False
    let ?g1 = "mark g row col"
    have m: "ff_rel g ?g1"
      using False Suc.prems(1) by (simp add: mark_rel)
    have w1: "wf_game ?g1"
      using m Suc.prems(1) by (rule ff_rel_wf)
    have h1: "hidden ?g1 < d"
      using mark_hidden [OF Suc.prems(1), of row col] False Suc.prems(2) by simp
    have "\<exists>s'. for_each offsets (\<lambda>(dr, dc) s. flood_fill d s (row + dr) (col + dc)) ?g1 = Some s'
            \<and> (wf_game s' \<and> hidden s' < d)"
    proof (rule for_each_total [where P = "\<lambda>a. wf_game a \<and> hidden a < d"])
      show "wf_game ?g1 \<and> hidden ?g1 < d" using w1 h1 by simp
    next
      fix x :: "int \<times> int" and a
      assume a: "wf_game a \<and> hidden a < d"
      obtain dr dc where x: "x = (dr, dc)" by (cases x)
      from Suc.IH [of a "row + dr" "col + dc"] a
      obtain b where b: "flood_fill d a (row + dr) (col + dc) = Some b" by blast
      have rel: "ff_rel a b" using a b flood_fill_rel by blast
      have "wf_game b" using rel a ff_rel_wf by blast
      moreover have "hidden b < d" using ff_rel_hidden [OF rel] a by simp
      ultimately show "\<exists>b. (case x of (dr, dc) \<Rightarrow> \<lambda>s. flood_fill d s (row + dr) (col + dc)) a = Some b
                 \<and> (wf_game b \<and> hidden b < d)"
        using b x by simp
    qed
    with False show ?thesis
      by (auto simp: flood_fill_Suc)
  qed
qed

lemma zero_cell_neighbours:
  assumes "adj_ok n m b" and "r < n" and "c < m" and "b ! r ! c = 0"
    and "(dr, dc) \<in> set offsets"
    and "0 \<le> int r + dr" and "int r + dr < int n" and "0 \<le> int c + dc" and "int c + dc < int m"
  shows "b ! nat (int r + dr) ! nat (int c + dc) \<noteq> - 1"
proof -
  from assms(1-3) have "b ! r ! c \<noteq> - 1 \<longrightarrow> b ! r ! c = int (mine_count n m b r c)"
    unfolding adj_ok_def by blast
  with assms(4) have "mine_count n m b r c = 0"
    by simp
  then have "\<forall>x \<in> set offsets. \<not> (case x of (dr, dc) \<Rightarrow> let nr = int r + dr; nc = int c + dc
               in 0 \<le> nr \<and> nr < int n \<and> 0 \<le> nc \<and> nc < int m \<and> b ! nat nr ! nat nc = - 1)"
    unfolding mine_count_def by (simp add: filter_empty_conv)
  with assms(5) have "\<not> (0 \<le> int r + dr \<and> int r + dr < int n \<and> 0 \<le> int c + dc
      \<and> int c + dc < int m \<and> b ! nat (int r + dr) ! nat (int c + dc) = - 1)"
    by (auto simp: Let_def)
  with assms(6-) show ?thesis
    by simp
qed

lemma mark_safe:
  assumes "wf_game g" and "is_valid_position g row col" and "no_mine_revealed g"
    and "board g ! nat row ! nat col \<noteq> - 1"
  shows "no_mine_revealed (mark g row col)"
proof -
  have r: "nat row < rows g" "nat col < cols g"
    using assms(2) by (auto simp: is_valid_position_def)
  have s: "shaped (rows g) (cols g) (revealed g)"
    using assms(1) by (simp add: wf_game_def)
  show ?thesis
    using assms(3,4) nth_upd2 [OF s r] by (auto simp: no_mine_revealed_def mark_def)
qed

lemma flood_fill_safe:
  assumes "wf_game g" and "adj_ok (rows g) (cols g) (board g)" and "no_mine_revealed g"
    and "is_valid_position g row col \<longrightarrow> board g ! nat row ! nat col \<noteq> - 1"
    and "flood_fill d g row col = Some g'"
  shows "no_mine_revealed g'"
  using assms
proof (induction d arbitrary: g row col g')
  case 0
  then show ?case by (simp add: flood_fill_0)
next
  case (Suc d)
  show ?case
  proof (cases "\<not> is_valid_position g row col \<or> revealed g ! nat row ! nat col")
    case True
    with Suc.prems show ?thesis
      by (simp add: flood_fill_Suc)
  next
    case False
    let ?g1 = "mark g row col"
    have valid: "is_valid_position g row col" using False by simp
    have r: "nat row < rows g" "nat col < cols g" "int (nat row) = row" "int (nat col) = col"
      using valid by (auto simp: is_valid_position_def)
    have m: "ff_rel g ?g1"
      using valid Suc.prems(1) by (simp add: mark_rel)
    have safe1: "no_mine_revealed ?g1"
      using mark_safe [OF Suc.prems(1) valid Suc.prems(3)] Suc.prems(4) valid by simp
    show ?thesis
    proof (cases "board g ! nat row ! nat col = 0")
      case zero: True
      from Suc.prems(5) False zero
      have loop: "for_each offsets (\<lambda>(dr, dc) s. flood_fill d s (row + dr) (col + dc)) ?g1 = Some g'"
        by (simp add: flood_fill_Suc)
      have "ff_rel g g' \<and> no_mine_revealed g'"
      proof (rule for_each_invariant [OF loop, where P = "\<lambda>a. ff_rel g a \<and> no_mine_revealed a"])
        show "ff_rel g ?g1 \<and> no_mine_revealed ?g1" using m safe1 by simp
      next
        fix x :: "int \<times> int" and a b
        assume x: "x \<in> set offsets" and a: "ff_rel g a \<and> no_mine_revealed a"
          and b: "(case x of (dr, dc) \<Rightarrow> \<lambda>s. flood_fill d s (row + dr) (col + dc)) a = Some b"
        obtain dr dc where xd: "x = (dr, dc)" by (cases x)
        have wa: "wf_game a" using a Suc.prems(1) ff_rel_wf by blast
        have fa: "rows a = rows g" "cols a = cols g" "board a = board g"
          using a ff_rel_fields by blast+
        have b': "flood_fill d a (row + dr) (col + dc) = Some b" using b xd by simp
        have nb: "is_valid_position a (row + dr) (col + dc)
                  \<longrightarrow> board a ! nat (row + dr) ! nat (col + dc) \<noteq> - 1"
          using zero_cell_neighbours [OF Suc.prems(2) r(1,2) zero, of dr dc] x xd r(3,4) fa
          by (auto simp: is_valid_position_def)
        have "no_mine_revealed b"
          using Suc.IH [OF wa _ _ nb b'] a fa Suc.prems(2) by simp
        moreover have "ff_rel g b"
          using a flood_fill_rel [OF wa b'] ff_rel_trans by blast
        ultimately show "ff_rel g b \<and> no_mine_revealed b" by simp
      qed
      then show ?thesis by simp
    next
      case nonzero: False
      with Suc.prems(5) False safe1 show ?thesis
        by (simp add: flood_fill_Suc)
    qed
  qed
qed

lemma safe_spots_filter:
  "safe_spots g row col =
     filter (\<lambda>(r, c). board g ! r ! c \<noteq> - 1 \<and> (int r \<noteq> row \<or> int c \<noteq> col))
       (cells (rows g) (cols g))"
proof -
  have "concat (map (\<lambda>r. concat (map (\<lambda>c. if P r c then [(r, c)] else []) ys)) xs)
      = filter (\<lambda>(r, c). P r c) (concat (map (\<lambda>r. map (Pair r) ys) xs))"
    for P :: "nat \<Rightarrow> nat \<Rightarrow> bool" and xs ys
  proof (induction xs)
    case Nil
    show ?case by simp
  next
    case (Cons x xs)
    have "concat (map (\<lambda>c. if P x c then [(x, c)] else []) ys)
        = filter (\<lambda>(r, c). P r c) (map (Pair x) ys)"
      by (induction ys) simp_all
    with Cons show ?case by simp
  qed
  then show ?thesis
    by (simp add: safe_spots_def cells_def)
qed

lemma set_safe_spots:
  "set (safe_spots g row col) =
     {(r, c). r < rows g \<and> c < cols g \<and> board g ! r ! c \<noteq> - 1 \<and> (int r \<noteq> row \<or> int c \<noteq> col)}"
  unfolding safe_spots_filter by (auto simp: set_cells)

lemma random_choice_in: "xs \<noteq> [] \<Longrightarrow> random_choice pick xs \<in> set xs"
  by (simp add: random_choice_def)

lemma check_win_condition_fields:
  "rows (check_win_condition g) = rows g" "cols (check_win_condition g) = cols g"
  "mines (check_win_condition g) = mines g" "board (check_win_condition g) = board g"
  "revealed (check_win_condition g) = revealed g" "flagged (check_win_condition g) = flagged g"
  "first_click (check_win_condition g) = first_click g"
  by (simp_all add: check_win_condition_def Let_def)

lemma revealed_count_cong:
  "rows g' = rows g \<Longrightarrow> cols g' = cols g \<Longrightarrow> revealed g' = revealed g
     \<Longrightarrow> revealed_count g' = revealed_count g"
  by (simp add: revealed_count_def)

lemma check_win_condition_flags:
  "game_won (check_win_condition g) \<longleftrightarrow> win_reached g \<or> game_won g"
  "game_over (check_win_condition g) \<longleftrightarrow> win_reached g \<or> game_over g"
  "win_reached (check_win_condition g) \<longleftrightarrow> win_reached g"
  by (simp_all add: check_win_condition_def Let_def win_reached_def revealed_count_def)

lemma none_revealed_count:
  assumes "none_revealed g"
  shows "revealed_count g = 0"
proof -
  have "\<forall>x \<in> set (cells (rows g) (cols g)). \<not> (case x of (r, c) \<Rightarrow> revealed g ! r ! c)"
    using assms by (auto simp: none_revealed_def set_cells)
  then show ?thesis
    by (simp add: revealed_count_def filter_empty_conv)
qed

lemma DIFFICULTIES_mines:
  assumes "DIFFICULTIES dif = Some s"
  shows "mines s < rows s * cols s"
  using DIFFICULTIES_cases [OF assms] by auto

lemma fresh_none_revealed: "none_revealed (fresh_game s dif ps)"
  by (simp add: none_revealed_def fresh_game_fields)

lemma none_revealed_safe: "none_revealed g \<Longrightarrow> no_mine_revealed g"
  by (simp add: none_revealed_def no_mine_revealed_def)

lemma fresh_inv:
  assumes "mines s < rows s * cols s" and "is_sample s ps"
  shows "inv (fresh_game s dif ps)"
proof -
  let ?g = "fresh_game s dif ps"
  have nr: "none_revealed ?g" by (rule fresh_none_revealed)
  have "revealed_count ?g = 0" using nr by (rule none_revealed_count)
  moreover have "int (rows s) * int (cols s) - int (mines s) \<noteq> 0"
  proof -
    have "int (mines s) < int (rows s * cols s)" using assms(1) by (simp only: of_nat_less_iff)
    then show ?thesis by simp
  qed
  ultimately have nw: "\<not> win_reached ?g"
    by (simp add: win_reached_def fresh_game_fields)
  show ?thesis
    unfolding inv_def
    using fresh_game_wf [OF assms(2)] fresh_game_board(3) [OF assms(2)] nr nw
      none_revealed_safe [OF nr]
    by (simp add: fresh_game_fields)
qed

lemma toggle_flag_inv:
  assumes "inv g" and "toggle_flag g row col = (changed, g')"
  shows "inv g'"
proof (cases "changed")
  case False
  with assms(2) have "g' = g"
    by (auto simp: toggle_flag_def split: if_splits)
  with assms(1) show ?thesis by simp
next
  case True
  with assms(2) have g': "g' = g\<lparr>flagged :=
              (flagged g)[nat row := (flagged g ! nat row)[nat col :=
                 \<not> flagged g ! nat row ! nat col]]\<rparr>"
    by (auto simp: toggle_flag_def split: if_splits)
  have "shaped (rows g) (cols g) (flagged g')"
    using assms(1) unfolding g' inv_def wf_game_def by (simp add: shaped_upd)
  then show ?thesis
    using assms(1) unfolding g' inv_def wf_game_def no_mine_revealed_def none_revealed_def
      win_reached_def revealed_count_def
    by simp
qed

lemma ensure_safe_first_click_relocates:
  assumes "board g ! nat row ! nat col = - 1" and "safe_spots g row col \<noteq> []"
    and "random_choice pick (safe_spots g row col) = (tr, tc)"
  shows "ensure_safe_first_click g row col pick =
           calculate_numbers (g\<lparr>board :=
             ((board g)[nat row := (board g ! nat row)[nat col := 0]])
               [tr := ((board g)[nat row := (board g ! nat row)[nat col := 0]] ! tr)[tc := - 1]]\<rparr>)"
  using assms by (simp add: ensure_safe_first_click_def Let_def)

lemma ensure_safe_first_click_same:
  assumes "board g ! nat row ! nat col \<noteq> - 1 \<or> safe_spots g row col = []"
  shows "ensure_safe_first_click g row col pick = g"
  using assms by (auto simp: ensure_safe_first_click_def)

lemma relocate_props:
  assumes wf: "wf_game g" and valid: "is_valid_position g row col"
    and mine: "board g ! nat row ! nat col = - 1" and ss: "safe_spots g row col \<noteq> []"
    and t: "random_choice pick (safe_spots g row col) = (tr, tc)"
  shows "ensure_safe_first_click g row col pick
           = g\<lparr>board := board (ensure_safe_first_click g row col pick)\<rparr>"
    and "shaped (rows g) (cols g) (board (ensure_safe_first_click g row col pick))"
    and "adj_ok (rows g) (cols g) (board (ensure_safe_first_click g row col pick))"
    and "mine_cells (rows g) (cols g) (board (ensure_safe_first_click g row col pick))
           = mine_cells (rows g) (cols g) (board g) - {(nat row, nat col)} \<union> {(tr, tc)}"
    and "tr < rows g \<and> tc < cols g \<and> board g ! tr ! tc \<noteq> - 1 \<and> (tr, tc) \<noteq> (nat row, nat col)"
proof -
  let ?b1 = "(board g)[nat row := (board g ! nat row)[nat col := 0]]"
  let ?b2 = "?b1[tr := (?b1 ! tr)[tc := - 1]]"
  let ?g2 = "g\<lparr>board := ?b2\<rparr>"
  have e: "ensure_safe_first_click g row col pick = calculate_numbers ?g2"
    using mine ss t by (rule ensure_safe_first_click_relocates)
  have p: "nat row < rows g" "nat col < cols g" "int (nat row) = row" "int (nat col) = col"
    using valid by (auto simp: is_valid_position_def)
  have "(tr, tc) \<in> set (safe_spots g row col)"
    using random_choice_in [OF ss, of pick] t by simp
  then have tin: "tr < rows g" "tc < cols g" "board g ! tr ! tc \<noteq> - 1"
    "int tr \<noteq> row \<or> int tc \<noteq> col"
    unfolding set_safe_spots by auto
  have tne: "(tr, tc) \<noteq> (nat row, nat col)"
    using tin(4) p(3,4) by auto
  show "tr < rows g \<and> tc < cols g \<and> board g ! tr ! tc \<noteq> - 1 \<and> (tr, tc) \<noteq> (nat row, nat col)"
    using tin tne by simp
  have s0: "shaped (rows g) (cols g) (board g)"
    using wf by (simp add: wf_game_def)
  have s1: "shaped (rows g) (cols g) ?b1"
    using s0 by (rule shaped_upd)
  have s2: "shaped (rows g) (cols g) ?b2"
    using s1 by (rule shaped_upd)
  have v1: "?b1 ! r ! c = (if r = nat row \<and> c = nat col then 0 else board g ! r ! c)"
    if "r < rows g" "c < cols g" for r c
    using nth_upd2 [OF s0 p(1,2) that] .
  have v2: "?b2 ! r ! c = (if r = tr \<and> c = tc then - 1 else ?b1 ! r ! c)"
    if "r < rows g" "c < cols g" for r c
    using nth_upd2 [OF s1 tin(1,2) that] .
  have m2: "mine_cells (rows g) (cols g) ?b2
          = mine_cells (rows g) (cols g) (board g) - {(nat row, nat col)} \<union> {(tr, tc)}"
  proof (intro set_eqI iffI)
    fix x assume "x \<in> mine_cells (rows g) (cols g) ?b2"
    then obtain r c where x: "x = (r, c)" "r < rows g" "c < cols g" "?b2 ! r ! c = - 1"
      unfolding mine_cells_def by blast
    from x(4) v2 [OF x(2,3)] v1 [OF x(2,3)]
    have "(r, c) = (tr, tc) \<or> ((r, c) \<noteq> (nat row, nat col) \<and> board g ! r ! c = - 1)"
      by (auto split: if_splits)
    then show "x \<in> mine_cells (rows g) (cols g) (board g) - {(nat row, nat col)} \<union> {(tr, tc)}"
      using x(1,2,3) unfolding mine_cells_def by auto
  next
    fix x assume xin: "x \<in> mine_cells (rows g) (cols g) (board g) - {(nat row, nat col)} \<union> {(tr, tc)}"
    obtain r c where x: "x = (r, c)" by (cases x)
    from xin x have d: "(r, c) = (tr, tc)
        \<or> (r < rows g \<and> c < cols g \<and> board g ! r ! c = - 1 \<and> (r, c) \<noteq> (nat row, nat col))"
      unfolding mine_cells_def by auto
    then have rc: "r < rows g" "c < cols g" using tin(1,2) by auto
    from d v2 [OF rc] v1 [OF rc] have "?b2 ! r ! c = - 1"
      by (auto split: if_splits)
    with rc x show "x \<in> mine_cells (rows g) (cols g) ?b2"
      unfolding mine_cells_def by simp
  qed
  have sg2: "shaped (rows ?g2) (cols ?g2) (board ?g2)"
    using s2 by simp
  show "ensure_safe_first_click g row col pick
           = g\<lparr>board := board (ensure_safe_first_click g row col pick)\<rparr>"
    unfolding e by (simp add: calculate_numbers_def)
  show "shaped (rows g) (cols g) (board (ensure_safe_first_click g row col pick))"
    using calculate_numbers_props(1) [OF sg2] unfolding e by simp
  show "adj_ok (rows g) (cols g) (board (ensure_safe_first_click g row col pick))"
    using calculate_numbers_props(3) [OF sg2] unfolding e by simp
  show "mine_cells (rows g) (cols g) (board (ensure_safe_first_click g row col pick))
           = mine_cells (rows g) (cols g) (board g) - {(nat row, nat col)} \<union> {(tr, tc)}"
    using calculate_numbers_props(2) [OF sg2] m2 unfolding e by simp
qed

lemma reveal_cell_noop:
  assumes "game_over g \<or> \<not> is_valid_position g row col
           \<or> revealed g ! nat row ! nat col \<or> flagged g ! nat row ! nat col"
  shows "reveal_cell limit g row col pick = Inr (False, g)"
  using assms by (auto simp: reveal_cell_def)

lemma reveal_cell_effect:
  assumes "\<not> game_over g" and "is_valid_position g row col"
    and "\<not> revealed g ! nat row ! nat col" and "\<not> flagged g ! nat row ! nat col"
  shows "reveal_cell limit g row col pick =
     (if board (before_mine_test g row col pick) ! nat row ! nat col = - 1
      then Inr (True, (before_mine_test g row col pick)\<lparr>game_over := True, game_won := False\<rparr>)
      else (case flood_fill limit (before_mine_test g row col pick) row col of
              None \<Rightarrow> Inl RecursionError
            | Some g3 \<Rightarrow> Inr (True, check_win_condition g3)))"
  using assms by (simp add: reveal_cell_def before_mine_test_def Let_def)

lemma before_mine_test_board:
  "\<exists>b. before_mine_test g row col pick = g\<lparr>board := b, first_click := False\<rparr>"
proof (cases "first_click g \<and> board g ! nat row ! nat col = - 1 \<and> safe_spots g row col \<noteq> []")
  case True
  obtain tr tc where t: "random_choice pick (safe_spots g row col) = (tr, tc)"
    by (cases "random_choice pick (safe_spots g row col)")
  let ?h = "g\<lparr>board :=
             ((board g)[nat row := (board g ! nat row)[nat col := 0]])
               [tr := ((board g)[nat row := (board g ! nat row)[nat col := 0]] ! tr)[tc := - 1]]\<rparr>"
  have e0: "ensure_safe_first_click g row col pick = calculate_numbers ?h"
    using True t by (simp add: ensure_safe_first_click_relocates)
  have "calculate_numbers ?h = g\<lparr>board := board (calculate_numbers ?h)\<rparr>"
    by (simp add: calculate_numbers_def)
  with e0 have e1: "ensure_safe_first_click g row col pick
                    = g\<lparr>board := board (calculate_numbers ?h)\<rparr>"
    by (rule trans)
  have "before_mine_test g row col pick
          = (ensure_safe_first_click g row col pick)\<lparr>first_click := False\<rparr>"
    using True by (simp add: before_mine_test_def)
  then have "before_mine_test g row col pick
          = g\<lparr>board := board (calculate_numbers ?h), first_click := False\<rparr>"
    by (simp only: e1)
  then show ?thesis by (rule exI)
next
  case False
  then have "before_mine_test g row col pick = g\<lparr>first_click := False\<rparr>"
    by (auto simp: before_mine_test_def ensure_safe_first_click_same)
  then have "before_mine_test g row col pick = g\<lparr>board := board g, first_click := False\<rparr>"
    by simp
  then show ?thesis by blast
qed

lemma before_mine_test_fields:
  "rows (before_mine_test g row col pick) = rows g"
  "cols (before_mine_test g row col pick) = cols g"
  "mines (before_mine_test g row col pick) = mines g"
  "revealed (before_mine_test g row col pick) = revealed g"
  "flagged (before_mine_test g row col pick) = flagged g"
  "game_over (before_mine_test g row col pick) = game_over g"
  "game_won (before_mine_test g row col pick) = game_won g"
  "\<not> first_click (before_mine_test g row col pick)"
  using before_mine_test_board [of g row col pick] by auto

lemma before_mine_test_inv:
  assumes "inv g" and "is_valid_position g row col"
  shows "wf_game (before_mine_test g row col pick)"
    and "adj_ok (rows g) (cols g) (board (before_mine_test g row col pick))"
    and "no_mine_revealed (before_mine_test g row col pick)"
proof -
  let ?g2 = "before_mine_test g row col pick"
  have wf: "wf_game g" and adj: "adj_ok (rows g) (cols g) (board g)"
    and safe: "no_mine_revealed g" and fc: "first_click g \<longrightarrow> none_revealed g"
    using assms(1) by (simp_all add: inv_def)
  have "shaped (rows g) (cols g) (board ?g2) \<and> adj_ok (rows g) (cols g) (board ?g2)
        \<and> no_mine_revealed ?g2"
  proof (cases "first_click g \<and> board g ! nat row ! nat col = - 1 \<and> safe_spots g row col \<noteq> []")
    case True
    obtain tr tc where t: "random_choice pick (safe_spots g row col) = (tr, tc)"
      by (cases "random_choice pick (safe_spots g row col)")
    from True have mine: "board g ! nat row ! nat col = - 1" and ss: "safe_spots g row col \<noteq> []"
      by simp_all
    have b: "board ?g2 = board (ensure_safe_first_click g row col pick)"
      using True by (simp add: before_mine_test_def)
    have "none_revealed g" using True fc by simp
    then have "none_revealed ?g2"
      by (simp add: none_revealed_def before_mine_test_fields)
    then have "no_mine_revealed ?g2" by (rule none_revealed_safe)
    then show ?thesis
      using relocate_props(2,3) [OF wf assms(2) mine ss t] b by simp
  next
    case False
    then have e: "?g2 = g\<lparr>first_click := False\<rparr>"
      by (auto simp: before_mine_test_def ensure_safe_first_click_same)
    show ?thesis
      using wf adj safe unfolding e by (simp add: wf_game_def no_mine_revealed_def)
  qed
  then show "adj_ok (rows g) (cols g) (board ?g2)" and "no_mine_revealed ?g2"
    and "wf_game ?g2"
    using wf by (simp_all add: wf_game_def before_mine_test_fields)
qed

lemma hidden_le: "hidden g \<le> rows g * cols g"
proof -
  have "{(r, c). r < rows g \<and> c < cols g \<and> \<not> revealed g ! r ! c} \<subseteq> {..<rows g} \<times> {..<cols g}"
    by auto
  then have "hidden g \<le> card ({..<rows g} \<times> {..<cols g})"
    unfolding hidden_def by (intro card_mono) simp_all
  then show ?thesis by simp
qed

lemma reveal_cell_inv:
  assumes "inv g" and "reveal_cell limit g row col pick = Inr (changed, g')"
  shows "inv g'"
proof (cases "game_over g \<or> \<not> is_valid_position g row col
           \<or> revealed g ! nat row ! nat col \<or> flagged g ! nat row ! nat col")
  case True
  then have "reveal_cell limit g row col pick = Inr (False, g)"
    by (rule reveal_cell_noop)
  with assms show ?thesis by simp
next
  case False
  let ?g2 = "before_mine_test g row col pick"
  have valid: "is_valid_position g row col" and live: "\<not> game_over g" using False by simp_all
  note eff = reveal_cell_effect [of g row col limit pick]
  have w2: "wf_game ?g2" and a2: "adj_ok (rows g) (cols g) (board ?g2)"
    and n2: "no_mine_revealed ?g2"
    using before_mine_test_inv [OF assms(1) valid] by blast+
  have not_won: "\<not> game_won g" "\<not> win_reached g"
    using assms(1) live by (auto simp: inv_def)
  have cnt2: "win_reached ?g2 = win_reached g"
    by (simp add: win_reached_def revealed_count_def before_mine_test_fields)
  show ?thesis
  proof (cases "board ?g2 ! nat row ! nat col = - 1")
    case True
    with eff False assms(2)
    have g': "g' = ?g2\<lparr>game_over := True, game_won := False\<rparr>"
      by simp
    show ?thesis
      unfolding g' inv_def
      using w2 a2 n2 not_won cnt2
      by (simp add: wf_game_def no_mine_revealed_def none_revealed_def win_reached_def
          revealed_count_def before_mine_test_fields)
  next
    case nomine: False
    with eff False assms(2)
    obtain g3 where g3: "flood_fill limit ?g2 row col = Some g3" "g' = check_win_condition g3"
      by (auto split: option.splits)
    have rel: "ff_rel ?g2 g3" using w2 g3(1) by (rule flood_fill_rel)
    have w3: "wf_game g3" using rel w2 by (rule ff_rel_wf)
    have a2': "adj_ok (rows ?g2) (cols ?g2) (board ?g2)"
      using a2 by (simp add: before_mine_test_fields)
    have n3: "no_mine_revealed g3"
      using flood_fill_safe [OF w2 a2' n2 _ g3(1)] nomine by simp
    have f3: "rows g3 = rows g" "cols g3 = cols g" "board g3 = board ?g2"
      "game_won g3 = game_won g" "game_over g3 = game_over g" "\<not> first_click g3"
      using ff_rel_fields [OF rel] by (simp_all add: before_mine_test_fields)
    show ?thesis
      unfolding g3(2) inv_def
      using w3 a2 n3 f3 not_won live
      by (simp add: check_win_condition_flags check_win_condition_fields wf_game_def
          no_mine_revealed_def)
  qed
qed

lemma reveal_cell_total:
  assumes "inv g" and "rows g * cols g < limit"
  shows "\<exists>changed g'. reveal_cell limit g row col pick = Inr (changed, g')"
proof (cases "game_over g \<or> \<not> is_valid_position g row col
           \<or> revealed g ! nat row ! nat col \<or> flagged g ! nat row ! nat col")
  case True
  then have "reveal_cell limit g row col pick = Inr (False, g)"
    by (rule reveal_cell_noop)
  then show ?thesis by blast
next
  case False
  let ?g2 = "before_mine_test g row col pick"
  have valid: "is_valid_position g row col" using False by simp
  have w2: "wf_game ?g2"
    using before_mine_test_inv(1) [OF assms(1) valid] .
  have "hidden ?g2 \<le> rows ?g2 * cols ?g2" by (rule hidden_le)
  then have "hidden ?g2 < limit"
    using assms(2) by (simp add: before_mine_test_fields)
  with w2 obtain g3 where "flood_fill limit ?g2 row col = Some g3"
    using flood_fill_total by blast
  then show ?thesis
    using reveal_cell_effect [of g row col limit pick] False by auto
qed

lemma reachable_inv:
  assumes "reachable g"
  shows "inv g"
  using assms
proof (induction rule: reachable.induct)
  case (fresh dif s ps g)
  then have "g = fresh_game s dif ps"
    by (simp add: MinesweeperGame_init_def)
  with fresh show ?case
    using fresh_inv DIFFICULTIES_mines by blast
next
  case (reveal g limit row col pick changed g')
  then show ?case using reveal_cell_inv by blast
next
  case (flag g row col changed g')
  then show ?case using toggle_flag_inv by blast
qed

lemma adj_ok_mines_around:
  assumes "adj_ok (rows g) (cols g) (board g)" and "r < rows g" and "c < cols g"
    and "board g ! r ! c \<noteq> - 1"
  shows "board g ! r ! c = int (card (mines_around g r c))"
proof -
  have "board g ! r ! c = int (mine_count (rows g) (cols g) (board g) r c)"
    using assms unfolding adj_ok_def by blast
  also have "mine_count (rows g) (cols g) (board g) r c = card (mines_around g r c)"
    unfolding mines_around_def using assms(2,3) by (rule mine_count_card)
  finally show ?thesis .
qed

lemma mines_around_le_8: "card (mines_around g r c) \<le> 8"
proof (cases "r < rows g \<and> c < cols g")
  case True
  then have "card (mines_around g r c) = mine_count (rows g) (cols g) (board g) r c"
    unfolding mines_around_def by (simp add: mine_count_card)
  also have "\<dots> \<le> length offsets"
    unfolding mine_count_def by (rule length_filter_le)
  also have "length offsets = 8" by (simp add: offsets_def)
  finally show ?thesis .
next
  case False
  have "mines_around g r c \<subseteq> (\<lambda>(dr, dc). (nat (int r + dr), nat (int c + dc))) ` set offsets"
  proof
    fix x assume xin: "x \<in> mines_around g r c"
    obtain r' c' where x: "x = (r', c')" by (cases x)
    from xin x have h: "(r', c') \<noteq> (r, c)" "\<bar>int r' - int r\<bar> \<le> 1" "\<bar>int c' - int c\<bar> \<le> 1"
      unfolding mines_around_def by simp_all
    have "\<not> (int r' - int r = 0 \<and> int c' - int c = 0)" using h(1) by auto
    moreover have "- 1 \<le> int r' - int r \<and> int r' - int r \<le> 1
                   \<and> - 1 \<le> int c' - int c \<and> int c' - int c \<le> 1"
      using h(2,3) by linarith
    ultimately have "(int r' - int r, int c' - int c) \<in> set offsets"
      by (simp only: set_offsets) simp
    moreover have "(\<lambda>(dr, dc). (nat (int r + dr), nat (int c + dc))) (int r' - int r, int c' - int c) = x"
      using x by simp
    ultimately show "x \<in> (\<lambda>(dr, dc). (nat (int r + dr), nat (int c + dc))) ` set offsets"
      by (rule rev_image_eqI [OF _ sym])
  qed
  then have "card (mines_around g r c)
               \<le> card ((\<lambda>(dr, dc). (nat (int r + dr), nat (int c + dc))) ` set offsets)"
    by (intro card_mono) simp_all
  also have "\<dots> \<le> card (set offsets)" by (rule card_image_le) simp
  also have "\<dots> \<le> length offsets" by (rule card_length)
  also have "length offsets = 8" by (simp add: offsets_def)
  finally show ?thesis .
qed

lemma terminal_simps:
  "terminal g = Won \<longleftrightarrow> game_over g \<and> game_won g"
  "terminal g = Lost \<longleftrightarrow> game_over g \<and> \<not> game_won g"
  "terminal g = TNone \<longleftrightarrow> \<not> game_over g"
  by (simp_all add: terminal_def is_game_over_def is_game_won_def)

lemma finite_mines_around: "finite (mines_around g r c)"
  unfolding mines_around_def by (rule finite_hidden)

lemma fresh_has_safe_spot:
  assumes "mines s < rows s * cols s" and "is_sample s ps"
    and "is_valid_position (fresh_game s dif ps) row col"
    and "board (fresh_game s dif ps) ! nat row ! nat col = - 1"
  shows "safe_spots (fresh_game s dif ps) row col \<noteq> []"
proof -
  let ?g = "fresh_game s dif ps"
  have dims: "rows ?g = rows s" "cols ?g = cols s"
    by (simp_all add: fresh_game_fields)
  have mc: "mine_cells (rows s) (cols s) (board ?g) = set ps"
    using assms(2) by (rule fresh_game_board)
  have "card (set ps) = mines s"
    using assms(2) by (simp add: is_sample_def distinct_card)
  then have "card (set ps) < card ({..<rows s} \<times> {..<cols s})"
    using assms(1) by simp
  then have "\<not> {..<rows s} \<times> {..<cols s} \<subseteq> set ps"
    using card_mono [of "set ps" "{..<rows s} \<times> {..<cols s}"] by auto
  then obtain qr qc where q: "qr < rows s" "qc < cols s" "(qr, qc) \<notin> set ps"
    by auto
  then have qb: "board ?g ! qr ! qc \<noteq> - 1"
    using mc unfolding mine_cells_def by blast
  have "int qr \<noteq> row \<or> int qc \<noteq> col"
  proof (rule ccontr)
    assume "\<not> (int qr \<noteq> row \<or> int qc \<noteq> col)"
    then have "nat row = qr" "nat col = qc" by auto
    with assms(4) qb show False by simp
  qed
  with q qb have "(qr, qc) \<in> set (safe_spots ?g row col)"
    unfolding set_safe_spots by (simp add: dims)
  then show ?thesis by auto
qed

lemma example_sample:
  "is_sample \<lparr>rows = 9, cols = 9, mines = 10, multiplier = 3 / 2\<rparr> example_mines"
  by (simp add: is_sample_def example_mines_def)

lemma example_init:
  "MinesweeperGame_init ''easy'' example_mines =
     Inr (fresh_game \<lparr>rows = 9, cols = 9, mines = 10, multiplier = 3 / 2\<rparr> ''easy'' example_mines)"
  by (simp add: MinesweeperGame_init_def DIFFICULTIES_def)

lemma example_reachable:
  "reachable (fresh_game \<lparr>rows = 9, cols = 9, mines = 10, multiplier = 3 / 2\<rparr> ''easy'' example_mines)"
  using DIFFICULTIES_easy example_sample example_init by (rule reachable.fresh)

text \<open>
  The first click on a fresh game of any dimensions with fewer mines than cells, the board
  with a single free cell included: the body of the proof of C4.
\<close>

lemma first_click_on_fresh_game:
  assumes few: "mines s < rows s * cols s" and sample: "is_sample s ps"
    and g: "g = fresh_game s dif ps"
    and valid: "is_valid_position g row col" and lim: "rows g * cols g < limit"
  shows "\<exists>g'. reveal_cell limit g row col pick = Inr (True, g')
           \<and> terminal g' \<noteq> Lost
           \<and> (board g ! nat row ! nat col \<noteq> - 1 \<longrightarrow> board g' = board g)
           \<and> (board g ! nat row ! nat col = - 1 \<longrightarrow>
                safe_spots g row col \<noteq> []
                \<and> set (safe_spots g row col) =
                    {(r, c). r < rows g \<and> c < cols g \<and> board g ! r ! c \<noteq> - 1
                       \<and> (r, c) \<noteq> (nat row, nat col)}
                \<and> random_choice pick (safe_spots g row col) \<in> set (safe_spots g row col)
                \<and> mine_cells (rows g) (cols g) (board g') =
                    mine_cells (rows g) (cols g) (board g) - {(nat row, nat col)}
                      \<union> {random_choice pick (safe_spots g row col)}
                \<and> board g' ! nat row ! nat col \<noteq> - 1
                \<and> (\<forall>r < rows g'. \<forall>c < cols g'. board g' ! r ! c \<noteq> - 1 \<longrightarrow>
                      board g' ! r ! c = int (card (mines_around g' r c))))"
proof -
  have inv_g: "inv g"
    unfolding g using few sample by (rule fresh_inv)
  have wf: "wf_game g" using inv_g by (simp add: inv_def)
  have p: "nat row < rows g" "nat col < cols g" "int (nat row) = row" "int (nat col) = col"
    using valid by (auto simp: is_valid_position_def)
  have start: "\<not> game_over g" "first_click g"
    "\<not> revealed g ! nat row ! nat col" "\<not> flagged g ! nat row ! nat col"
    using p unfolding g by (simp_all add: fresh_game_fields)
  let ?g2 = "before_mine_test g row col pick"
  let ?t = "random_choice pick (safe_spots g row col)"
  have w2: "wf_game ?g2" and a2: "adj_ok (rows g) (cols g) (board ?g2)"
    using before_mine_test_inv [OF inv_g valid] by blast+
  have same: "board ?g2 = board g" if "board g ! nat row ! nat col \<noteq> - 1"
    using that by (simp add: before_mine_test_def)
  have moved: "safe_spots g row col \<noteq> [] \<and> ?t \<in> set (safe_spots g row col)
        \<and> mine_cells (rows g) (cols g) (board ?g2) =
             mine_cells (rows g) (cols g) (board g) - {(nat row, nat col)} \<union> {?t}"
    if mine: "board g ! nat row ! nat col = - 1"
  proof -
    have ss: "safe_spots g row col \<noteq> []"
      using fresh_has_safe_spot [OF few sample] valid mine unfolding g by blast
    obtain tr tc where t: "?t = (tr, tc)" by (cases ?t)
    have b: "board ?g2 = board (ensure_safe_first_click g row col pick)"
      using mine start(2) by (simp add: before_mine_test_def)
    have "?t \<in> set (safe_spots g row col)"
      using ss by (rule random_choice_in)
    then show ?thesis
      using ss relocate_props(4) [OF wf valid mine ss t] b t by simp
  qed
  have clear: "board ?g2 ! nat row ! nat col \<noteq> - 1"
  proof (cases "board g ! nat row ! nat col = - 1")
    case True
    have "?t \<in> set (safe_spots g row col)" using moved [OF True] by simp
    then have "?t \<noteq> (nat row, nat col)"
      unfolding set_safe_spots using p(3,4) by auto
    then have "(nat row, nat col) \<notin> mine_cells (rows g) (cols g) (board ?g2)"
      using moved [OF True] by simp
    then show ?thesis
      using p(1,2) unfolding mine_cells_def by simp
  next
    case False
    then show ?thesis using same by simp
  qed
  have "hidden ?g2 \<le> rows ?g2 * cols ?g2" by (rule hidden_le)
  then have "hidden ?g2 < limit"
    using lim by (simp add: before_mine_test_fields)
  with w2 obtain g3 where g3: "flood_fill limit ?g2 row col = Some g3"
    using flood_fill_total by blast
  have rel: "ff_rel ?g2 g3" using w2 g3 by (rule flood_fill_rel)
  let ?g' = "check_win_condition g3"
  have res: "reveal_cell limit g row col pick = Inr (True, ?g')"
    using reveal_cell_effect [OF start(1) valid start(3,4), of limit pick] clear g3 by simp
  have f3: "rows g3 = rows g" "cols g3 = cols g" "board g3 = board ?g2" "\<not> game_over g3"
    using ff_rel_fields [OF rel] start(1) by (simp_all add: before_mine_test_fields)
  have f': "rows ?g' = rows g" "cols ?g' = cols g" "board ?g' = board ?g2"
    using f3 by (simp_all add: check_win_condition_fields)
  have not_lost: "terminal ?g' \<noteq> Lost"
    using f3(4) by (simp add: terminal_simps check_win_condition_flags)
  have adj': "adj_ok (rows ?g') (cols ?g') (board ?g')"
    using a2 f' by simp
  have num: "\<forall>r < rows ?g'. \<forall>c < cols ?g'. board ?g' ! r ! c \<noteq> - 1 \<longrightarrow>
                      board ?g' ! r ! c = int (card (mines_around ?g' r c))"
    using adj_ok_mines_around [OF adj'] by blast
  have spots: "set (safe_spots g row col) =
                    {(r, c). r < rows g \<and> c < cols g \<and> board g ! r ! c \<noteq> - 1
                       \<and> (r, c) \<noteq> (nat row, nat col)}"
    unfolding set_safe_spots using p(3,4) by auto
  show ?thesis
    using res not_lost same moved clear num spots f'(3) by (intro exI [of _ ?g']) simp
qed

text \<open>
  The counter of \<open>_check_win_condition\<close> is the number of cells of the grid whose
  \<open>revealed\<close> entry is set.
\<close>

lemma revealed_count_card:
  "revealed_count g = card {(r, c). r < rows g \<and> c < cols g \<and> revealed g ! r ! c}"
proof -
  have "revealed_count g
          = card ({x. case x of (r, c) \<Rightarrow> revealed g ! r ! c} \<inter> set (cells (rows g) (cols g)))"
    unfolding revealed_count_def using distinct_cells by (rule distinct_length_filter)
  also have "{x. case x of (r, c) \<Rightarrow> revealed g ! r ! c} \<inter> set (cells (rows g) (cols g))
          = {(r, c). r < rows g \<and> c < cols g \<and> revealed g ! r ! c}"
    unfolding set_cells by blast
  finally show ?thesis .
qed

text \<open>A round of clicks on a reachable game leaves a reachable game.\<close>

lemma reveal_cells_reachable:
  assumes "reachable g" and "reveal_cells limit g ps = Inr g'"
  shows "reachable g'"
  using assms
proof (induction ps arbitrary: g)
  case Nil
  then show ?case by simp
next
  case (Cons p ps)
  obtain row col where p: "p = (row, col)" by (cases p)
  from Cons.prems(2) p obtain changed g1 where
    s: "reveal_cell limit g row col 0 = Inr (changed, g1)" "reveal_cells limit g1 ps = Inr g'"
    by (auto split: sum.splits)
  have "reachable g1" using Cons.prems(1) s(1) by (rule reachable.reveal)
  then show ?case using s(2) by (rule Cons.IH)
qed

text \<open>
  A round on the easy board of \<open>example_mines\<close>, evaluated: the clicks (4, 4), (0, 0) and (1, 2)
  reveal 70 cells and the game goes on; the click (2, 1) reveals the last safe cell and wins.
  And a game lost: the click (0, 1) reveals one cell, next to the mine at (0, 2).
\<close>

lemma example_round:
  "case reveal_cells 100
      (fresh_game \<lparr>rows = 9, cols = 9, mines = 10, multiplier = 3 / 2\<rparr> ''easy'' example_mines)
      [(4, 4), (0, 0), (1, 2)] of
     Inl e \<Rightarrow> False
   | Inr g3 \<Rightarrow>
       rows g3 = 9 \<and> cols g3 = 9 \<and> mines g3 = 10 \<and> \<not> game_over g3 \<and> revealed_count g3 = 70
       \<and> (case reveal_cell 100 g3 2 1 0 of
            Inl e \<Rightarrow> False
          | Inr (changed, g4) \<Rightarrow>
              changed \<and> rows g4 = 9 \<and> cols g4 = 9 \<and> mines g4 = 10
              \<and> game_over g4 \<and> game_won g4 \<and> revealed_count g4 = 71)"
  by code_simp

lemma example_mine_hit:
  "case reveal_cell 100
      (fresh_game \<lparr>rows = 9, cols = 9, mines = 10, multiplier = 3 / 2\<rparr> ''easy'' example_mines)
      0 1 0 of
     Inl e \<Rightarrow> False
   | Inr (changed, g1) \<Rightarrow>
       changed \<and> rows g1 = 9 \<and> cols g1 = 9 \<and> \<not> game_over g1 \<and> \<not> first_click g1
       \<and> revealed g1 ! 0 ! 1 \<and> board g1 ! 0 ! 2 = - 1
       \<and> \<not> revealed g1 ! 0 ! 2 \<and> \<not> flagged g1 ! 0 ! 2 \<and> board g1 ! 0 ! 0 = 0"
  by code_simp

section \<open>The grid: claims\<close>

text \<open>
  C9. For every difficulty of the table and every sample of mine positions, the constructor
  returns a game in which exactly \<open>mines\<close> cells are mines, at the distinct positions of the
  sample; every cell that is not a mine holds the number of mines among its in-bounds
  neighbours, of which there are at most 8; no cell is revealed, no cell is flagged, the first
  click is still to come and the game is not over.
\<close>

theorem init_places_mines_and_numbers:
  assumes "DIFFICULTIES dif = Some s" and "is_sample s ps"
  shows "\<exists>g. MinesweeperGame_init dif ps = Inr g
           \<and> rows g = rows s \<and> cols g = cols s \<and> mines g = mines s
           \<and> shaped (rows s) (cols s) (board g)
           \<and> {(r, c). r < rows g \<and> c < cols g \<and> board g ! r ! c = - 1} = set ps
           \<and> card {(r, c). r < rows g \<and> c < cols g \<and> board g ! r ! c = - 1} = mines s
           \<and> (\<forall>r < rows g. \<forall>c < cols g. board g ! r ! c \<noteq> - 1 \<longrightarrow>
                 board g ! r ! c = int (card (mines_around g r c))
                 \<and> card (mines_around g r c) \<le> 8)
           \<and> (\<forall>r < rows g. \<forall>c < cols g. \<not> revealed g ! r ! c \<and> \<not> flagged g ! r ! c)
           \<and> first_click g \<and> terminal g = TNone"
proof -
  let ?g = "fresh_game s dif ps"
  have init: "MinesweeperGame_init dif ps = Inr ?g"
    using assms(1) by (simp add: MinesweeperGame_init_def)
  have dims: "rows ?g = rows s" "cols ?g = cols s" "mines ?g = mines s"
    by (simp_all add: fresh_game_fields)
  have sh: "shaped (rows s) (cols s) (board ?g)"
    using assms(2) by (rule fresh_game_board)
  have "mine_cells (rows s) (cols s) (board ?g) = set ps"
    using assms(2) by (rule fresh_game_board)
  then have ms: "{(r, c). r < rows ?g \<and> c < cols ?g \<and> board ?g ! r ! c = - 1} = set ps"
    by (simp add: mine_cells_def dims)
  have "card (set ps) = mines s"
    using assms(2) by (simp add: is_sample_def distinct_card)
  with ms have mc: "card {(r, c). r < rows ?g \<and> c < cols ?g \<and> board ?g ! r ! c = - 1} = mines s"
    by simp
  have adj: "adj_ok (rows ?g) (cols ?g) (board ?g)"
    using fresh_game_board(3) [OF assms(2)] by (simp add: dims)
  have num: "\<forall>r < rows ?g. \<forall>c < cols ?g. board ?g ! r ! c \<noteq> - 1 \<longrightarrow>
                 board ?g ! r ! c = int (card (mines_around ?g r c))
                 \<and> card (mines_around ?g r c) \<le> 8"
    using adj_ok_mines_around [OF adj] mines_around_le_8 by blast
  have hid: "\<forall>r < rows ?g. \<forall>c < cols ?g. \<not> revealed ?g ! r ! c \<and> \<not> flagged ?g ! r ! c"
    by (simp add: fresh_game_fields)
  have st: "first_click ?g \<and> terminal ?g = TNone"
    by (simp add: fresh_game_fields terminal_def is_game_over_def)
  show ?thesis
    using init dims sh ms mc num hid st by blast
qed


theorem init_places_mines_and_numbers_witness:
  "DIFFICULTIES ''easy'' = Some \<lparr>rows = 9, cols = 9, mines = 10, multiplier = 3 / 2\<rparr>
   \<and> is_sample \<lparr>rows = 9, cols = 9, mines = 10, multiplier = 3 / 2\<rparr> example_mines
   \<and> (\<exists>g. MinesweeperGame_init ''easy'' example_mines = Inr g
           \<and> rows g = 9 \<and> cols g = 9 \<and> mines g = 10
           \<and> {(r, c). r < rows g \<and> c < cols g \<and> board g ! r ! c = - 1} = set example_mines
           \<and> card {(r, c). r < rows g \<and> c < cols g \<and> board g ! r ! c = - 1} = 10
           \<and> (\<forall>r < rows g. \<forall>c < cols g. board g ! r ! c \<noteq> - 1 \<longrightarrow>
                 board g ! r ! c = int (card (mines_around g r c)))
           \<and> (\<forall>r < rows g. \<forall>c < cols g. \<not> revealed g ! r ! c \<and> \<not> flagged g ! r ! c)
           \<and> first_click g \<and> terminal g = TNone)"
proof -
  have tier: "DIFFICULTIES ''easy'' = Some \<lparr>rows = 9, cols = 9, mines = 10, multiplier = 3 / 2\<rparr>"
    by (simp add: DIFFICULTIES_def)
  show ?thesis
    using tier example_sample init_places_mines_and_numbers [OF tier example_sample]
    by auto
qed

text \<open>
  C4. On a game fresh from the constructor, for any difficulty of the table, a first
  \<open>reveal_cell\<close> on an in-bounds position returns a change and never ends in Lost. (Every
  difficulty of the table has fewer mines than cells, so a cell to move the mine to always
  exists; \<open>first_click_on_fresh_game\<close> shows the same one mine short of a full board.) When the position holds a mine,
  the list of safe spots is not empty and holds exactly the cells that are neither mines nor
  the position; the mine moves to the spot picked from it, the position is cleared, and
  every cell of the board that is not a mine holds the number of its adjacent mines again.
  When the position holds no mine the board is unchanged. The recursion limit must leave
  more frames than the board has cells.
\<close>

theorem first_click_is_safe:
  assumes "DIFFICULTIES dif = Some s" and "is_sample s ps"
    and "MinesweeperGame_init dif ps = Inr g"
    and "is_valid_position g row col" and "rows g * cols g < limit"
  shows "\<exists>g'. reveal_cell limit g row col pick = Inr (True, g')
           \<and> terminal g' \<noteq> Lost
           \<and> (board g ! nat row ! nat col \<noteq> - 1 \<longrightarrow> board g' = board g)
           \<and> (board g ! nat row ! nat col = - 1 \<longrightarrow>
                safe_spots g row col \<noteq> []
                \<and> set (safe_spots g row col) =
                    {(r, c). r < rows g \<and> c < cols g \<and> board g ! r ! c \<noteq> - 1
                       \<and> (r, c) \<noteq> (nat row, nat col)}
                \<and> random_choice pick (safe_spots g row col) \<in> set (safe_spots g row col)
                \<and> mine_cells (rows g) (cols g) (board g') =
                    mine_cells (rows g) (cols g) (board g) - {(nat row, nat col)}
                      \<union> {random_choice pick (safe_spots g row col)}
                \<and> board g' ! nat row ! nat col \<noteq> - 1
                \<and> (\<forall>r < rows g'. \<forall>c < cols g'. board g' ! r ! c \<noteq> - 1 \<longrightarrow>
                      board g' ! r ! c = int (card (mines_around g' r c))))"
proof -
  have g: "g = fresh_game s dif ps"
    using assms(1,3) by (simp add: MinesweeperGame_init_def)
  have few: "mines s < rows s * cols s"
    using assms(1) by (rule DIFFICULTIES_mines)
  show ?thesis
    using few assms(2) g assms(4,5) by (rule first_click_on_fresh_game)
qed

theorem first_click_is_safe_witness:
  "DIFFICULTIES ''easy'' = Some \<lparr>rows = 9, cols = 9, mines = 10, multiplier = 3 / 2\<rparr>
   \<and> is_sample \<lparr>rows = 9, cols = 9, mines = 10, multiplier = 3 / 2\<rparr> example_mines
   \<and> is_valid_position
        (fresh_game \<lparr>rows = 9, cols = 9, mines = 10, multiplier = 3 / 2\<rparr> ''easy'' example_mines) 0 2
   \<and> (\<exists>g'. reveal_cell 100
               (fresh_game \<lparr>rows = 9, cols = 9, mines = 10, multiplier = 3 / 2\<rparr> ''easy'' example_mines)
               0 2 7 = Inr (True, g')
           \<and> terminal g' \<noteq> Lost)"
proof -
  let ?s = "\<lparr>rows = 9, cols = 9, mines = 10, multiplier = 3 / 2\<rparr>"
  let ?g = "fresh_game ?s ''easy'' example_mines"
  have tier: "DIFFICULTIES ''easy'' = Some ?s"
    by (simp add: DIFFICULTIES_def)
  have valid: "is_valid_position ?g 0 2"
    by (simp add: is_valid_position_def fresh_game_fields)
  have lim: "rows ?g * cols ?g < 100"
    by (simp add: fresh_game_fields)
  from first_click_is_safe [OF tier example_sample example_init valid lim, of 7]
  obtain g' where "reveal_cell 100 ?g 0 2 7 = Inr (True, g')" "terminal g' \<noteq> Lost"
    by blast
  then show ?thesis
    using tier example_sample valid by blast
qed

text \<open>
  C5. After every call of \<open>reveal_cell\<close> that returns, on any reachable game, the game is
  Won if and only if the number of cells of the grid whose \<open>revealed\<close> entry is set is rows
  times cols minus mines; that number is what \<open>_check_win_condition\<close> counts; and a call
  that changed the game without hitting a mine returns \<open>_check_win_condition\<close> applied to
  the filled game. With a recursion limit above the number of cells the call does return.
\<close>

theorem win_iff_all_safe_cells_revealed:
  assumes "reachable g"
  shows "(rows g * cols g < limit \<longrightarrow>
            (\<exists>changed g'. reveal_cell limit g row col pick = Inr (changed, g')))
       \<and> (\<forall>changed g'. reveal_cell limit g row col pick = Inr (changed, g') \<longrightarrow>
            (terminal g' = Won \<longleftrightarrow>
               int (card {(r, c). r < rows g' \<and> c < cols g' \<and> revealed g' ! r ! c})
                 = int (rows g') * int (cols g') - int (mines g'))
            \<and> revealed_count g' = card {(r, c). r < rows g' \<and> c < cols g' \<and> revealed g' ! r ! c}
            \<and> (changed \<and> terminal g' \<noteq> Lost \<longrightarrow>
                 (\<exists>g3. flood_fill limit (before_mine_test g row col pick) row col = Some g3
                    \<and> g' = check_win_condition g3)))"
proof (intro conjI allI impI)
  have inv_g: "inv g" using assms by (rule reachable_inv)
  {
    assume "rows g * cols g < limit"
    with inv_g show "\<exists>changed g'. reveal_cell limit g row col pick = Inr (changed, g')"
      by (rule reveal_cell_total)
  }
  fix changed g'
  assume res: "reveal_cell limit g row col pick = Inr (changed, g')"
  show "revealed_count g' = card {(r, c). r < rows g' \<and> c < cols g' \<and> revealed g' ! r ! c}"
    by (rule revealed_count_card)
  have inv': "inv g'" using inv_g res by (rule reveal_cell_inv)
  then have "terminal g' = Won \<longleftrightarrow>
                int (revealed_count g') = int (rows g') * int (cols g') - int (mines g')"
    by (auto simp: inv_def terminal_simps win_reached_def)
  then show "terminal g' = Won \<longleftrightarrow>
               int (card {(r, c). r < rows g' \<and> c < cols g' \<and> revealed g' ! r ! c})
                 = int (rows g') * int (cols g') - int (mines g')"
    by (simp only: revealed_count_card)
  assume h: "changed \<and> terminal g' \<noteq> Lost"
  then have ch: "changed" and nl: "terminal g' \<noteq> Lost" by simp_all
  have act: "\<not> (game_over g \<or> \<not> is_valid_position g row col
         \<or> revealed g ! nat row ! nat col \<or> flagged g ! nat row ! nat col)"
    using reveal_cell_noop [of g row col limit pick] res ch by auto
  let ?g2 = "before_mine_test g row col pick"
  have eff: "reveal_cell limit g row col pick =
   (if board ?g2 ! nat row ! nat col = - 1
    then Inr (True, ?g2\<lparr>game_over := True, game_won := False\<rparr>)
    else (case flood_fill limit ?g2 row col of
            None \<Rightarrow> Inl RecursionError
          | Some g3 \<Rightarrow> Inr (True, check_win_condition g3)))"
    using act by (intro reveal_cell_effect) simp_all
  have "board ?g2 ! nat row ! nat col \<noteq> - 1"
  proof
    assume "board ?g2 ! nat row ! nat col = - 1"
    with eff res have "g' = ?g2\<lparr>game_over := True, game_won := False\<rparr>" by simp
    then have "terminal g' = Lost" by (simp add: terminal_simps)
    with nl show False by simp
  qed
  with eff res show "\<exists>g3. flood_fill limit ?g2 row col = Some g3 \<and> g' = check_win_condition g3"
    by (auto split: option.splits)
qed

theorem win_iff_all_safe_cells_revealed_witness:
  "\<exists>g3 g4.
     reveal_cells 100
       (fresh_game \<lparr>rows = 9, cols = 9, mines = 10, multiplier = 3 / 2\<rparr> ''easy'' example_mines)
       [(4, 4), (0, 0), (1, 2)] = Inr g3
     \<and> reachable g3
     \<and> terminal g3 = TNone
     \<and> card {(r, c). r < rows g3 \<and> c < cols g3 \<and> revealed g3 ! r ! c} = 70
     \<and> reveal_cell 100 g3 2 1 0 = Inr (True, g4)
     \<and> terminal g4 = Won
     \<and> card {(r, c). r < rows g4 \<and> c < cols g4 \<and> revealed g4 ! r ! c} = 71
     \<and> int (rows g4) * int (cols g4) - int (mines g4) = 71"
proof -
  let ?g0 = "fresh_game \<lparr>rows = 9, cols = 9, mines = 10, multiplier = 3 / 2\<rparr> ''easy'' example_mines"
  from example_round obtain g3 where
    r3: "reveal_cells 100 ?g0 [(4, 4), (0, 0), (1, 2)] = Inr g3"
    and f3: "rows g3 = 9" "cols g3 = 9" "mines g3 = 10" "\<not> game_over g3" "revealed_count g3 = 70"
    and c4: "case reveal_cell 100 g3 2 1 0 of
            Inl e \<Rightarrow> False
          | Inr (changed, g4) \<Rightarrow>
              changed \<and> rows g4 = 9 \<and> cols g4 = 9 \<and> mines g4 = 10
              \<and> game_over g4 \<and> game_won g4 \<and> revealed_count g4 = 71"
    by (cases "reveal_cells 100 ?g0 [(4, 4), (0, 0), (1, 2)]") simp_all
  from c4 obtain g4 where
    r4: "reveal_cell 100 g3 2 1 0 = Inr (True, g4)"
    and f4: "rows g4 = 9" "cols g4 = 9" "mines g4 = 10"
    by (cases "reveal_cell 100 g3 2 1 0") auto
  have reach3: "reachable g3"
    using example_reachable r3 by (rule reveal_cells_reachable)
  note claim = win_iff_all_safe_cells_revealed [OF reach3, of 100 2 1 0]
  from claim r4 have won_iff: "terminal g4 = Won \<longleftrightarrow>
               int (card {(r, c). r < rows g4 \<and> c < cols g4 \<and> revealed g4 ! r ! c})
                 = int (rows g4) * int (cols g4) - int (mines g4)"
    and cnt4: "revealed_count g4 = card {(r, c). r < rows g4 \<and> c < cols g4 \<and> revealed g4 ! r ! c}"
    by blast+
  from c4 r4 have v4: "game_over g4" "game_won g4" "revealed_count g4 = 71"
    by simp_all
  have won: "terminal g4 = Won" using v4 by (simp add: terminal_simps)
  have card4: "card {(r, c). r < rows g4 \<and> c < cols g4 \<and> revealed g4 ! r ! c} = 71"
    using cnt4 v4(3) by simp
  have safe: "int (rows g4) * int (cols g4) - int (mines g4) = 71"
    using won won_iff card4 by simp
  have t3: "terminal g3 = TNone" using f3(4) by (simp add: terminal_simps)
  have card3: "card {(r, c). r < rows g3 \<and> c < cols g3 \<and> revealed g3 ! r ! c} = 70"
    using revealed_count_card [of g3] f3(5) by simp
  show ?thesis
    using r3 reach3 t3 card3 r4 won card4 safe by blast
qed

text \<open>
  C10. In every reachable game no revealed cell is a mine, and a cell with adjacency 0 has no
  mine among its neighbours, so the fill never steps onto one. A call of \<open>reveal_cell\<close> that
  reports a change and leaves a mine at its position has set the game to Lost and left the
  revealed matrix as it was; after the first click, revealing a hidden unflagged mine returns
  a change, with the game over, not won, and nothing else touched.
\<close>

theorem mines_are_never_revealed:
  assumes "reachable g"
  shows "(\<forall>r < rows g. \<forall>c < cols g. revealed g ! r ! c \<longrightarrow> board g ! r ! c \<noteq> - 1)
       \<and> (\<forall>r < rows g. \<forall>c < cols g. board g ! r ! c = 0 \<longrightarrow> mines_around g r c = {})
       \<and> (\<forall>limit row col pick changed g'.
             reveal_cell limit g row col pick = Inr (changed, g') \<and> changed
               \<and> board g' ! nat row ! nat col = - 1
             \<longrightarrow> terminal g' = Lost \<and> revealed g' = revealed g)
       \<and> (\<forall>limit row col pick.
             \<not> game_over g \<and> is_valid_position g row col \<and> \<not> first_click g
               \<and> \<not> revealed g ! nat row ! nat col \<and> \<not> flagged g ! nat row ! nat col
               \<and> board g ! nat row ! nat col = - 1
             \<longrightarrow> reveal_cell limit g row col pick =
                   Inr (True, g\<lparr>first_click := False, game_over := True, game_won := False\<rparr>))"
proof (intro conjI allI impI)
  have inv_g: "inv g" using assms by (rule reachable_inv)
  then have adj: "adj_ok (rows g) (cols g) (board g)" by (simp add: inv_def)
  {
    fix r c assume "r < rows g" "c < cols g" "revealed g ! r ! c"
    then show "board g ! r ! c \<noteq> - 1"
      using inv_g by (simp add: inv_def no_mine_revealed_def)
  }
  {
    fix r c assume rc: "r < rows g" "c < cols g" and z: "board g ! r ! c = 0"
    have "board g ! r ! c = int (card (mines_around g r c))"
      using adj rc z by (intro adj_ok_mines_around) simp_all
    with z have "card (mines_around g r c) = 0" by simp
    then show "mines_around g r c = {}"
      using finite_mines_around by simp
  }
  {
    fix limit row col pick changed g'
    assume h: "reveal_cell limit g row col pick = Inr (changed, g') \<and> changed
               \<and> board g' ! nat row ! nat col = - 1"
    then have res: "reveal_cell limit g row col pick = Inr (changed, g')" and ch: "changed"
      and hit: "board g' ! nat row ! nat col = - 1"
      by simp_all
    have act: "\<not> (game_over g \<or> \<not> is_valid_position g row col
           \<or> revealed g ! nat row ! nat col \<or> flagged g ! nat row ! nat col)"
      using reveal_cell_noop [of g row col limit pick] res ch by auto
    let ?g2 = "before_mine_test g row col pick"
    have eff: "reveal_cell limit g row col pick =
     (if board ?g2 ! nat row ! nat col = - 1
      then Inr (True, ?g2\<lparr>game_over := True, game_won := False\<rparr>)
      else (case flood_fill limit ?g2 row col of
              None \<Rightarrow> Inl RecursionError
            | Some g3 \<Rightarrow> Inr (True, check_win_condition g3)))"
      using act by (intro reveal_cell_effect) simp_all
    have w2: "wf_game ?g2"
      using before_mine_test_inv(1) [OF inv_g] act by simp
    have mine2: "board ?g2 ! nat row ! nat col = - 1"
    proof (rule ccontr)
      assume no: "board ?g2 ! nat row ! nat col \<noteq> - 1"
      with eff res obtain g3 where g3: "flood_fill limit ?g2 row col = Some g3"
        "g' = check_win_condition g3"
        by (auto split: option.splits)
      have "ff_rel ?g2 g3" using w2 g3(1) by (rule flood_fill_rel)
      then have "board g' = board ?g2"
        using g3(2) by (simp add: check_win_condition_fields ff_rel_fields)
      with no hit show False by simp
    qed
    with eff res have "g' = ?g2\<lparr>game_over := True, game_won := False\<rparr>" by simp
    then have "terminal g' = Lost" "revealed g' = revealed g"
      by (simp_all add: terminal_simps before_mine_test_fields)
    then show "terminal g' = Lost" and "revealed g' = revealed g" .
  }
  {
    fix limit row col pick
    assume h: "\<not> game_over g \<and> is_valid_position g row col \<and> \<not> first_click g
               \<and> \<not> revealed g ! nat row ! nat col \<and> \<not> flagged g ! nat row ! nat col
               \<and> board g ! nat row ! nat col = - 1"
    then have "before_mine_test g row col pick = g\<lparr>first_click := False\<rparr>"
      by (simp add: before_mine_test_def)
    then show "reveal_cell limit g row col pick =
                   Inr (True, g\<lparr>first_click := False, game_over := True, game_won := False\<rparr>)"
      using h reveal_cell_effect [of g row col limit pick] by simp
  }
qed

theorem mines_are_never_revealed_witness:
  "\<exists>g1 g2.
     reveal_cell 100
       (fresh_game \<lparr>rows = 9, cols = 9, mines = 10, multiplier = 3 / 2\<rparr> ''easy'' example_mines)
       0 1 0 = Inr (True, g1)
     \<and> reachable g1
     \<and> revealed g1 ! 0 ! 1 \<and> board g1 ! 0 ! 1 \<noteq> - 1
     \<and> board g1 ! 0 ! 0 = 0 \<and> mines_around g1 0 0 = {}
     \<and> board g1 ! 0 ! 2 = - 1 \<and> \<not> revealed g1 ! 0 ! 2
     \<and> reveal_cell 100 g1 0 2 0 = Inr (True, g2)
     \<and> terminal g2 = Lost
     \<and> revealed g2 = revealed g1"
proof -
  let ?g0 = "fresh_game \<lparr>rows = 9, cols = 9, mines = 10, multiplier = 3 / 2\<rparr> ''easy'' example_mines"
  from example_mine_hit obtain g1 where
    r1: "reveal_cell 100 ?g0 0 1 0 = Inr (True, g1)"
    and f1: "rows g1 = 9" "cols g1 = 9" "\<not> game_over g1" "\<not> first_click g1"
      "revealed g1 ! 0 ! 1" "board g1 ! 0 ! 2 = - 1"
      "\<not> revealed g1 ! 0 ! 2" "\<not> flagged g1 ! 0 ! 2" "board g1 ! 0 ! 0 = 0"
    by (cases "reveal_cell 100 ?g0 0 1 0") auto
  have reach1: "reachable g1"
    using example_reachable r1 by (rule reachable.reveal)
  note claim = mines_are_never_revealed [OF reach1]
  have valid: "is_valid_position g1 0 2"
    by (simp add: is_valid_position_def f1)
  from claim have "\<forall>r < rows g1. \<forall>c < cols g1. revealed g1 ! r ! c \<longrightarrow> board g1 ! r ! c \<noteq> - 1"
    by blast
  then have nomine: "board g1 ! 0 ! 1 \<noteq> - 1"
    using f1(1,2,5) by simp
  from claim have "\<forall>r < rows g1. \<forall>c < cols g1. board g1 ! r ! c = 0 \<longrightarrow> mines_around g1 r c = {}"
    by blast
  then have around: "mines_around g1 0 0 = {}"
    using f1(1,2,9) by simp
  let ?g2 = "g1\<lparr>first_click := False, game_over := True, game_won := False\<rparr>"
  from claim have "\<not> game_over g1 \<and> is_valid_position g1 0 2 \<and> \<not> first_click g1
               \<and> \<not> revealed g1 ! nat 0 ! nat 2 \<and> \<not> flagged g1 ! nat 0 ! nat 2
               \<and> board g1 ! nat 0 ! nat 2 = - 1
             \<longrightarrow> reveal_cell 100 g1 0 2 0 = Inr (True, ?g2)"
    by blast
  then have r2: "reveal_cell 100 g1 0 2 0 = Inr (True, ?g2)"
    using f1 valid by simp
  from claim have "reveal_cell 100 g1 0 2 0 = Inr (True, ?g2) \<and> True
               \<and> board ?g2 ! nat 0 ! nat 2 = - 1
             \<longrightarrow> terminal ?g2 = Lost \<and> revealed ?g2 = revealed g1"
    by blast
  then have lost: "terminal ?g2 = Lost" "revealed ?g2 = revealed g1"
    using r2 f1(6) by simp_all
  show ?thesis
    using r1 reach1 f1(5) nomine f1(9) around f1(6,7) r2 lost by blast
qed

text \<open>
  C1. On the easy board of \<open>example_mines\<close> (a sample as \<open>random.sample\<close> returns them,
  lemma \<open>example_sample\<close>), flag (0, 1), then reveal (0, 0): both calls report a change,
  the game is not over, and the fill from (0, 0) has marked the flagged cell (0, 1) revealed
  while its flag stays set. \<open>flood_fill\<close> tests the bounds and the revealed bit only;
  \<open>reveal_cell\<close> and \<open>toggle_flag\<close> both keep a cell from being revealed and flagged
  at once.
\<close>

theorem flood_fill_reveals_flagged_cell:
  "(case MinesweeperGame_init ''easy'' example_mines of
        Inl e \<Rightarrow> False
      | Inr g \<Rightarrow>
          (case toggle_flag g 0 1 of
             (flag_changed, g1) \<Rightarrow>
               (case reveal_cell 100 g1 0 0 0 of
                  Inl e \<Rightarrow> False
                | Inr (changed, g2) \<Rightarrow>
                    flag_changed \<and> changed \<and> \<not> game_over g2
                    \<and> board g1 ! 0 ! 0 = 0 \<and> board g1 ! 0 ! 1 = 1
                    \<and> \<not> revealed g1 ! 0 ! 1 \<and> flagged g1 ! 0 ! 1
                    \<and> revealed g2 ! 0 ! 1 \<and> flagged g2 ! 0 ! 1)))"
  by code_simp

end
